theory Spec2Isabelle
  imports Complex_Main "HOL-Library.Char_ord" "HOL-Library.List_Lexorder"
    "HOL-Library.Product_Lexorder" "HOL-Library.Sublist" "HOL-Library.Multiset"
begin

section \<open>Strings as the Python code uses them\<close>

text \<open>
  Python strings are modelled as \<open>string\<close>, one \<open>char\<close> per code point, for the code
  points below 256. \<open>str.isspace\<close>, and with it \<open>str.strip()\<close> and the class \<open>\s\<close> of
  \<open>re\<close>, hold on that range for exactly the twelve characters listed below.
\<close>

definition whitespace_chars :: "char list" where
  "whitespace_chars = [CHR 0x09, CHR 0x0A, CHR 0x0B, CHR 0x0C, CHR 0x0D, CHR 0x1C, CHR 0x1D,
     CHR 0x1E, CHR 0x1F, CHR 0x20, CHR 0x85, CHR 0xA0]"

definition is_space :: "char \<Rightarrow> bool" where
  "is_space c = (c \<in> set whitespace_chars)"

definition is_digit :: "char \<Rightarrow> bool" where
  "is_digit c = (c \<in> set ''0123456789'')"

definition upper_chars :: "char list" where
  "upper_chars = ''ABCDEFGHIJKLMNOPQRSTUVWXYZ''"

definition lower_chars :: "char list" where
  "lower_chars = ''abcdefghijklmnopqrstuvwxyz''"

definition latin_upper_chars :: "char list" where
  "latin_upper_chars = [CHR 0xC0, CHR 0xC1, CHR 0xC2, CHR 0xC3, CHR 0xC4, CHR 0xC5, CHR 0xC6,
     CHR 0xC7, CHR 0xC8, CHR 0xC9, CHR 0xCA, CHR 0xCB, CHR 0xCC, CHR 0xCD, CHR 0xCE, CHR 0xCF,
     CHR 0xD0, CHR 0xD1, CHR 0xD2, CHR 0xD3, CHR 0xD4, CHR 0xD5, CHR 0xD6, CHR 0xD8, CHR 0xD9,
     CHR 0xDA, CHR 0xDB, CHR 0xDC, CHR 0xDD, CHR 0xDE]"

definition latin_lower_chars :: "char list" where
  "latin_lower_chars = [CHR 0xE0, CHR 0xE1, CHR 0xE2, CHR 0xE3, CHR 0xE4, CHR 0xE5, CHR 0xE6,
     CHR 0xE7, CHR 0xE8, CHR 0xE9, CHR 0xEA, CHR 0xEB, CHR 0xEC, CHR 0xED, CHR 0xEE, CHR 0xEF,
     CHR 0xF0, CHR 0xF1, CHR 0xF2, CHR 0xF3, CHR 0xF4, CHR 0xF5, CHR 0xF6, CHR 0xF8, CHR 0xF9,
     CHR 0xFA, CHR 0xFB, CHR 0xFC, CHR 0xFD, CHR 0xFE]"

definition is_upper_ascii :: "char \<Rightarrow> bool" where
  "is_upper_ascii c = (c \<in> set upper_chars)"

definition is_alpha_ascii :: "char \<Rightarrow> bool" where
  "is_alpha_ascii c = (c \<in> set upper_chars \<or> c \<in> set lower_chars)"

text \<open>\<open>str.lower()\<close>, character by character.\<close>

definition lower_char :: "char \<Rightarrow> char" where
  "lower_char c =
     (case map_of (zip (upper_chars @ latin_upper_chars) (lower_chars @ latin_lower_chars)) c of
        Some d \<Rightarrow> d
      | None \<Rightarrow> c)"

definition lower :: "string \<Rightarrow> string" where
  "lower s = map lower_char s"

text \<open>\<open>s.strip()\<close>: whitespace removed at both ends.\<close>

definition strip :: "string \<Rightarrow> string" where
  "strip s = rev (dropWhile is_space (rev (dropWhile is_space s)))"

text \<open>\<open>s.split('\n')\<close>: always at least one piece, the separators removed.\<close>

fun split_nl :: "string \<Rightarrow> string list" where
  "split_nl [] = [[]]"
| "split_nl (c # cs) =
     (if c = CHR 0x0A then [] # split_nl cs
      else (case split_nl cs of [] \<Rightarrow> [[c]] | l # ls \<Rightarrow> (c # l) # ls))"

text \<open>\<open>a in b\<close> on strings: \<open>a\<close> occurs in \<open>b\<close> as a contiguous piece.\<close>

fun substring_of :: "string \<Rightarrow> string \<Rightarrow> bool" where
  "substring_of xs [] = (xs = [])"
| "substring_of xs (y # ys) = (prefix xs (y # ys) \<or> substring_of xs ys)"

text \<open>\<open>str(n)\<close> for a non-negative integer, and \<open>sep.join(parts)\<close>.\<close>

definition digit_char :: "nat \<Rightarrow> char" where
  "digit_char d = ''0123456789'' ! d"

fun show_nat :: "nat \<Rightarrow> string" where
  "show_nat n = (if n < 10 then [digit_char n] else show_nat (n div 10) @ [digit_char (n mod 10)])"

declare show_nat.simps [simp del]

fun join :: "string \<Rightarrow> string list \<Rightarrow> string" where
  "join sep [] = []"
| "join sep [x] = x"
| "join sep (x # y # ys) = x @ sep @ join sep (y # ys)"

subsection \<open>The two regular expressions of the configuration\<close>

text \<open>
  A backtracking matcher in the order of Python's \<open>re\<close>: \<open>rmatch r s\<close> lists, most
  preferred first, what is left of \<open>s\<close> after each way \<open>r\<close> can match at its start. An
  alternative tries its left branch first and a repetition is greedy.
\<close>

datatype rx =
    Epsilon
  | Cls "char \<Rightarrow> bool"
  | Seq rx rx
  | Alt rx rx
  | Star rx

fun star_m :: "(string \<Rightarrow> string list) \<Rightarrow> nat \<Rightarrow> string \<Rightarrow> string list" where
  "star_m m 0 s = [s]"
| "star_m m (Suc n) s =
     concat (map (star_m m n) (filter (\<lambda>t. length t < length s) (m s))) @ [s]"

primrec rmatch :: "rx \<Rightarrow> string \<Rightarrow> string list" where
  "rmatch Epsilon = (\<lambda>s. [s])"
| "rmatch (Cls p) = (\<lambda>s. case s of [] \<Rightarrow> [] | c # cs \<Rightarrow> if p c then [cs] else [])"
| "rmatch (Seq a b) = (\<lambda>s. concat (map (rmatch b) (rmatch a s)))"
| "rmatch (Alt a b) = (\<lambda>s. rmatch a s @ rmatch b s)"
| "rmatch (Star a) = (\<lambda>s. star_m (rmatch a) (length s) s)"

definition Chr :: "char \<Rightarrow> rx" where
  "Chr c = Cls (\<lambda>d. d = c)"

definition Many1 :: "rx \<Rightarrow> rx" where
  "Many1 r = Seq r (Star r)"

fun Lit :: "string \<Rightarrow> rx" where
  "Lit [] = Epsilon"
| "Lit (c # cs) = Seq (Chr c) (Lit cs)"

text \<open>\<open>\d{1,2}\<close>: two digits are tried before one.\<close>

definition digits_1_2 :: rx where
  "digits_1_2 = Seq (Cls is_digit) (Alt (Cls is_digit) Epsilon)"

text \<open>\<open>(CHAPTER \d+|(\d{1,2}(\.\d{1,2})*))\<close>, the numbering both patterns start with.\<close>

definition numbering_rx :: rx where
  "numbering_rx =
     Alt (Seq (Lit ''CHAPTER '') (Many1 (Cls is_digit)))
         (Seq digits_1_2 (Star (Seq (Chr (CHR ''.'')) digits_1_2)))"

text \<open>\<open>[A-Za-z\s,:-]\<close>\<close>

definition is_title_char :: "char \<Rightarrow> bool" where
  "is_title_char c = (is_alpha_ascii c \<or> is_space c \<or> c \<in> set '',:-'')"

text \<open>
  \<open>Config.HEADING_REGEX_PATTERN\<close>,
  \<^verbatim>\<open>^(CHAPTER \d+|(\d{1,2}(\.\d{1,2})*))\s+([A-Z][A-Za-z\s,:-]+)$\<close>, without its anchors.
\<close>

definition heading_rx :: rx where
  "heading_rx =
     Seq numbering_rx (Seq (Many1 (Cls is_space))
       (Seq (Cls is_upper_ascii) (Many1 (Cls is_title_char))))"

text \<open>
  \<open>heading_regex.match(line_stripped)\<close> as a truth value: \<open>match\<close> anchors at the start, and
  \<open>$\<close> holds at the end of the string or before a newline that ends it.
\<close>

definition heading_match :: "string \<Rightarrow> bool" where
  "heading_match s = (\<exists>r \<in> set (rmatch heading_rx s). r = [] \<or> r = [CHR 0x0A])"

text \<open>The pattern of \<open>structural_search\<close>, \<^verbatim>\<open>^(CHAPTER \d+|(\d{1,2}(\.\d{1,2})*))\s+\<close>.\<close>

definition numbering_prefix_rx :: rx where
  "numbering_prefix_rx = Seq numbering_rx (Many1 (Cls is_space))"

text \<open>
  \<open>re.sub(pattern, "", heading)\<close> for a pattern anchored by \<open>^\<close>: only a match at the
  start of the string can be replaced, and the preferred one is.
\<close>

definition strip_numbering :: "string \<Rightarrow> string" where
  "strip_numbering h = (case rmatch numbering_prefix_rx h of [] \<Rightarrow> h | r # _ \<Rightarrow> r)"

section \<open>Exceptions\<close>

text \<open>
  The exceptions the modelled code can meet: a missing dictionary key, an index out of
  range, and whatever an external model (embedding model, index, cross-encoder, text
  splitter, PDF reader) raises, with its message. \<open>str_exn\<close> is \<open>str(e)\<close>; for a
  \<open>KeyError\<close> that is the key in quotes.
\<close>

datatype exn = KeyError string | IndexError string | ExternalError string

fun str_exn :: "exn \<Rightarrow> string" where
  "str_exn (KeyError k) = [CHR 0x27] @ k @ [CHR 0x27]"
| "str_exn (IndexError m) = m"
| "str_exn (ExternalError m) = m"

text \<open>\<open>d[k]\<close> on a dictionary whose key \<open>k\<close> may be missing.\<close>

definition lookup :: "string \<Rightarrow> 'a option \<Rightarrow> exn + 'a" where
  "lookup k v = (case v of None \<Rightarrow> Inl (KeyError k) | Some x \<Rightarrow> Inr x)"

text \<open>A comprehension whose body may raise: the first exception, left to right, ends it.\<close>

fun mapE :: "('a \<Rightarrow> exn + 'b) \<Rightarrow> 'a list \<Rightarrow> exn + 'b list" where
  "mapE f [] = Inr []"
| "mapE f (x # xs) =
     (case f x of
        Inl e \<Rightarrow> Inl e
      | Inr y \<Rightarrow> (case mapE f xs of Inl e \<Rightarrow> Inl e | Inr ys \<Rightarrow> Inr (y # ys)))"

section \<open>Python floats and \<open>sorted\<close>\<close>

text \<open>
  A Python float is a number or NaN. Comparisons are exact: \<open>a < b\<close> holds for two
  numbers in that order and fails as soon as one side is NaN. Sums and quotients of
  floats round, so they are left to the interpreter: the two operations the code uses,
  \<open>sum(xs)\<close> and \<open>x / n\<close>, are taken as given.
\<close>

datatype pyfloat = Num real | NaN

fun flt :: "pyfloat \<Rightarrow> pyfloat \<Rightarrow> bool" where
  "flt (Num a) (Num b) = (a < b)"
| "flt _ _ = False"

fun num_of :: "pyfloat \<Rightarrow> real" where
  "num_of (Num a) = a"
| "num_of NaN = 0"

record float_arith =
  float_sum :: "pyfloat list \<Rightarrow> pyfloat"
  float_div :: "pyfloat \<Rightarrow> nat \<Rightarrow> pyfloat"

text \<open>
  \<open>min(xs)\<close> and \<open>max(xs)\<close> on a non-empty list: the first element is kept until a later
  one is smaller (for \<open>max\<close>: greater).
\<close>

definition py_min :: "pyfloat list \<Rightarrow> pyfloat" where
  "py_min xs = fold (\<lambda>item m. if flt item m then item else m) (tl xs) (hd xs)"

definition py_max :: "pyfloat list \<Rightarrow> pyfloat" where
  "py_max xs = fold (\<lambda>item m. if flt m item then item else m) (tl xs) (hd xs)"

text \<open>
  \<open>list.sort\<close> as CPython 3.11 runs it on fewer than 64 elements, with the comparison \<open>lt\<close>
  as its only access to the keys: the run at the front of the list is found (\<open>count_run\<close>;
  a strictly descending run is reversed), and every later element is put into the sorted
  front at the place a binary search gives (\<open>binarysort\<close>). On keys that \<open>lt\<close> orders
  totally the result is the stable sort, which is what CPython returns at any length. On 64
  or more elements with keys that are not totally ordered CPython merges runs, and its
  arrangement may differ from this one.
\<close>

function bisect :: "('a \<Rightarrow> 'a \<Rightarrow> bool) \<Rightarrow> 'a \<Rightarrow> 'a list \<Rightarrow> nat \<Rightarrow> nat \<Rightarrow> nat" where
  "bisect lt pivot a l r =
     (if l < r
      then (let p = l + (r - l) div 2
            in if lt pivot (a ! p) then bisect lt pivot a l p else bisect lt pivot a (p + 1) r)
      else l)"
  by pat_completeness auto
termination
  by (relation "measure (\<lambda>(lt, pivot, a, l, r). r - l)") auto

declare bisect.simps [simp del]

definition insert_at :: "'a list \<Rightarrow> nat \<Rightarrow> 'a \<Rightarrow> 'a list" where
  "insert_at xs i x = take i xs @ x # drop i xs"

fun binarysort :: "('a \<Rightarrow> 'a \<Rightarrow> bool) \<Rightarrow> 'a list \<Rightarrow> 'a list \<Rightarrow> 'a list" where
  "binarysort lt front [] = front"
| "binarysort lt front (pivot # rest) =
     binarysort lt (insert_at front (bisect lt pivot front 0 (length front)) pivot) rest"

text \<open>
  How many of the elements after \<open>prev\<close> continue the run: each is compared with the one
  before it.
\<close>

fun run_while :: "('a \<Rightarrow> 'a \<Rightarrow> bool) \<Rightarrow> 'a \<Rightarrow> 'a list \<Rightarrow> nat" where
  "run_while continues prev [] = 0"
| "run_while continues prev (x # xs) =
     (if continues prev x then Suc (run_while continues x xs) else 0)"

text \<open>The length of the run at the front, and whether it is a descending one.\<close>

fun count_run :: "('a \<Rightarrow> 'a \<Rightarrow> bool) \<Rightarrow> 'a list \<Rightarrow> nat \<times> bool" where
  "count_run lt [] = (0, False)"
| "count_run lt [x] = (1, False)"
| "count_run lt (x # y # rest) =
     (if lt y x then (2 + run_while (\<lambda>prev cur. lt cur prev) y rest, True)
      else (2 + run_while (\<lambda>prev cur. \<not> lt cur prev) y rest, False))"

definition listsort :: "('a \<Rightarrow> 'a \<Rightarrow> bool) \<Rightarrow> 'a list \<Rightarrow> 'a list" where
  "listsort lt xs =
     (if length xs < 2 then xs
      else case count_run lt xs of
             (n, descending) \<Rightarrow>
               binarysort lt (if descending then rev (take n xs) else take n xs) (drop n xs))"

text \<open>
  \<open>sorted(xs, key=key, reverse=True)\<close> with float keys: the list is reversed, sorted
  ascending, and reversed again.
\<close>

definition sorted_reverse :: "('a \<Rightarrow> pyfloat) \<Rightarrow> 'a list \<Rightarrow> 'a list" where
  "sorted_reverse key xs = rev (listsort (\<lambda>a b. flt (key a) (key b)) (rev xs))"

section \<open>Blocks and chunks\<close>

text \<open>
  A block is the dictionary \<open>{"page_number", "heading", "content"}\<close> the segmenter builds.
  A chunk is a dictionary that the code reads by key; a key may be missing, so each field
  is optional and reading a missing one raises \<open>KeyError\<close>. The two score keys are
  absent until a retrieval writes them. A rerank score is a float as the cross-encoder
  returns it; a similarity score is the distance the index reports, a number.
\<close>

record block =
  page_number :: nat
  heading :: string
  content :: string

record chunk =
  c_text :: "string option"
  c_page_number :: "nat option"
  c_heading :: "string option"
  similarity_score :: "real option"
  rerank_score :: "pyfloat option"

definition new_chunk :: "string \<Rightarrow> nat \<Rightarrow> string \<Rightarrow> chunk" where
  "new_chunk t p h =
     \<lparr>c_text = Some t, c_page_number = Some p, c_heading = Some h,
      similarity_score = None, rerank_score = None\<rparr>"

section \<open>pdf_processor.py\<close>

subsection \<open>extract_structured_text\<close>

text \<open>
  The document is the list of the texts of its pages, as \<open>page.get_text("text")\<close> gives
  them. The state of the loops is \<open>structured_text\<close>, \<open>current_heading\<close> and, within a
  page, \<open>page_content_buffer\<close>. The progress bar and the notifications do not take part
  in the result.
\<close>

definition DEFAULT_HEADING :: string where
  "DEFAULT_HEADING = ''Introduction''"

definition flush_buffer :: "nat \<Rightarrow> string \<Rightarrow> string \<Rightarrow> block list \<Rightarrow> block list" where
  "flush_buffer page_no current_heading buffer structured_text =
     (if strip buffer \<noteq> []
      then structured_text @
             [\<lparr>page_number = page_no, heading = current_heading, content = strip buffer\<rparr>]
      else structured_text)"

fun scan_line :: "nat \<Rightarrow> string \<Rightarrow> block list \<times> string \<times> string \<Rightarrow> block list \<times> string \<times> string"
  where
  "scan_line page_no line (structured_text, current_heading, buffer) =
     (let line_stripped = strip line in
      if line_stripped = [] then (structured_text, current_heading, buffer)
      else if heading_match line_stripped
      then (flush_buffer page_no current_heading buffer structured_text, line_stripped, [])
      else (structured_text, current_heading, buffer @ line @ [CHR 0x0A]))"

fun scan_page :: "nat \<Rightarrow> string \<Rightarrow> block list \<times> string \<Rightarrow> block list \<times> string" where
  "scan_page page_no text (structured_text, current_heading) =
     (case fold (scan_line page_no) (split_nl text) (structured_text, current_heading, []) of
        (st, h, buffer) \<Rightarrow> (flush_buffer page_no h buffer st, h))"

fun scan_pages :: "nat \<Rightarrow> string list \<Rightarrow> block list \<times> string \<Rightarrow> block list \<times> string" where
  "scan_pages page_num [] acc = acc"
| "scan_pages page_num (text # rest) acc =
     scan_pages (Suc page_num) rest (scan_page (page_num + 1) text acc)"

definition extract_structured_text :: "string list \<Rightarrow> block list \<times> nat" where
  "extract_structured_text doc =
     (let total_pages = length doc in
      if total_pages = 0 then ([], 0)
      else
        let structured_text = fst (scan_pages 0 doc ([], DEFAULT_HEADING));
            total_text_extracted = concat doc
        in if strip total_text_extracted = [] then ([], total_pages)
           else if structured_text = []
           then ([\<lparr>page_number = 1, heading = ''Document Content'',
                   content = strip total_text_extracted\<rparr>], total_pages)
           else (structured_text, total_pages))"

subsection \<open>create_metadata_chunks\<close>

text \<open>
  The text splitter is an external library object: a function from a text to its pieces
  that may raise.
\<close>

type_synonym splitter = "string \<Rightarrow> exn + string list"

definition chunks_of_block :: "block \<Rightarrow> string list \<Rightarrow> chunk list" where
  "chunks_of_block b text_chunks =
     map (\<lambda>c. new_chunk (strip c) (page_number b) (heading b))
         (filter (\<lambda>c. strip c \<noteq> []) text_chunks)"

fun create_metadata_chunks :: "block list \<Rightarrow> splitter \<Rightarrow> exn + chunk list" where
  "create_metadata_chunks [] split_text = Inr []"
| "create_metadata_chunks (b # bs) split_text =
     (if strip (content b) = [] then create_metadata_chunks bs split_text
      else (case split_text (content b) of
              Inl e \<Rightarrow> Inl e
            | Inr text_chunks \<Rightarrow>
                (case create_metadata_chunks bs split_text of
                   Inl e \<Rightarrow> Inl e
                 | Inr rest \<Rightarrow> Inr (chunks_of_block b text_chunks @ rest))))"

subsection \<open>validate_pdf_content\<close>

definition meaningful :: "string \<Rightarrow> bool" where
  "meaningful t = (10 < length (strip t))"

definition validate_pdf_content :: "block list \<Rightarrow> chunk list \<Rightarrow> exn + bool \<times> string" where
  "validate_pdf_content structured_text chunks =
     (if structured_text = []
      then Inr (False, ''No structured text could be extracted from the PDF'')
      else if chunks = []
      then Inr (False, ''No valid text chunks could be created from the PDF content'')
      else (case mapE (\<lambda>c. lookup ''text'' (c_text c)) chunks of
              Inl e \<Rightarrow> Inl e
            | Inr texts \<Rightarrow>
                if filter meaningful texts = []
                then Inr (False, ''PDF content appears to be too short or fragmented'')
                else Inr (True, ''Successfully processed PDF with '' @ show_nat (length chunks)
                                 @ '' chunks'')))"

subsection \<open>PDFProcessor.process_pdf\<close>

text \<open>
  The second component of the returned pair is either the dictionary with the one key
  \<open>"error"\<close> or the dictionary of results. Opening the file may raise, so the document
  arrives as an exception or as its pages.
\<close>

record pdf_results =
  res_structured_text :: "block list"
  res_chunks :: "chunk list"
  res_total_pages :: nat
  res_total_chunks :: nat
  res_message :: string

datatype pdf_outcome = Error_dict string | Results pdf_results

definition process_pdf :: "splitter \<Rightarrow> exn + string list \<Rightarrow> bool \<times> pdf_outcome" where
  "process_pdf text_splitter pdf_file =
     (case pdf_file of
        Inl e \<Rightarrow> (False, Error_dict (''PDF processing failed: '' @ str_exn e))
      | Inr doc \<Rightarrow>
          (case extract_structured_text doc of
             (structured_text, total_pages) \<Rightarrow>
               if structured_text = [] \<or> total_pages = 0
               then (False, Error_dict ''Failed to extract content from PDF'')
               else
                 (case create_metadata_chunks structured_text text_splitter of
                    Inl e \<Rightarrow> (False, Error_dict (''PDF processing failed: '' @ str_exn e))
                  | Inr chunks \<Rightarrow>
                      (case validate_pdf_content structured_text chunks of
                         Inl e \<Rightarrow> (False, Error_dict (''PDF processing failed: '' @ str_exn e))
                       | Inr (is_valid, message) \<Rightarrow>
                           if \<not> is_valid then (False, Error_dict message)
                           else (True, Results
                                  \<lparr>res_structured_text = structured_text, res_chunks = chunks,
                                   res_total_pages = total_pages,
                                   res_total_chunks = length chunks,
                                   res_message = message\<rparr>)))))"

section \<open>retrieval.py and vector_store.py\<close>

subsection \<open>Chunk objects, external models, and what a call leaves behind\<close>

text \<open>
  The retrieval functions receive a Python list of chunk dictionaries and some of them
  write into those dictionaries, so the dictionaries live in a store: \<open>heap\<close> maps an
  address to the dictionary there, a chunk list is a list of addresses (the same address
  may occur twice: the same object), and \<open>chunk.copy()\<close> takes the fresh address
  \<open>next_free\<close>. The addresses in use are those below \<open>next_free\<close>.

  The embedding model, the FAISS index and the cross-encoder are external objects: each is
  a function that returns its result or raises. \<open>index.search\<close> is given the query
  embedding and \<open>top_k\<close> and returns the rows \<open>distances[0]\<close> and \<open>indices[0]\<close>. The
  \<open>trace\<close> records, in order, every call to one of them and every Streamlit notification.
  The cross-encoder's scores are floats, so one of them may be NaN.
\<close>

datatype ui_msg =
    Direct_hit string
  | No_direct_match
  | Semantic_search_error string
  | Vector_store_error string
  | Reranking_error string

datatype event =
    Encode "string list"
  | Index_search "real list list" int
  | Predict "(string \<times> string) list"
  | Notify ui_msg

record world =
  heap :: "nat \<Rightarrow> chunk"
  next_free :: nat
  trace :: "event list"

type_synonym embedder = "string list \<Rightarrow> exn + real list list"
type_synonym faiss_index = "real list list \<Rightarrow> int \<Rightarrow> exn + real list \<times> int list"
type_synonym cross_encoder = "(string \<times> string) list \<Rightarrow> exn + pyfloat list"

definition emit :: "event \<Rightarrow> world \<Rightarrow> world" where
  "emit ev w = w\<lparr>trace := trace w @ [ev]\<rparr>"

definition uses_vector_index :: "event \<Rightarrow> bool" where
  "uses_vector_index ev = (case ev of Encode _ \<Rightarrow> True | Index_search _ _ \<Rightarrow> True | _ \<Rightarrow> False)"

definition STRUCTURAL_SEARCH_TOP_K :: nat where
  "STRUCTURAL_SEARCH_TOP_K = 10"

definition SEMANTIC_SEARCH_TOP_K :: int where
  "SEMANTIC_SEARCH_TOP_K = 20"

definition SEMANTIC_FALLBACK_TOP_K :: nat where
  "SEMANTIC_FALLBACK_TOP_K = 5"

subsection \<open>structural_search\<close>

text \<open>The sort key \<open>lambda x: (len(x), x)\<close>.\<close>

definition heading_key :: "string \<Rightarrow> nat \<times> string" where
  "heading_key x = (length x, x)"

definition clean_heading :: "string \<Rightarrow> string" where
  "clean_heading h = lower (strip_numbering h)"

text \<open>\<open>clean_heading in query.lower()\<close>\<close>

definition direct_hit :: "string \<Rightarrow> string \<Rightarrow> bool" where
  "direct_hit query h = substring_of (clean_heading h) (lower query)"

text \<open>One round of \<open>for heading in unique_headings\<close>.\<close>

fun heading_step :: "string \<Rightarrow> nat list \<Rightarrow> string \<Rightarrow> nat list \<times> world \<Rightarrow> nat list \<times> world"
  where
  "heading_step query chunks h (structural_results, w) =
     (if direct_hit query h
      then (structural_results @ filter (\<lambda>r. c_heading (heap w r) = Some h) chunks,
            emit (Notify (Direct_hit h)) w)
      else (structural_results, w))"

text \<open>
  The set of headings is built first, so a chunk without the key \<open>heading\<close> raises before
  anything else happens. A set has no order of its own; sorting it by a key that tells any
  two headings apart gives one list whatever the order was.
\<close>

definition structural_search :: "string \<Rightarrow> nat list \<Rightarrow> world \<Rightarrow> (exn + nat list) \<times> world"
  where
  "structural_search query chunks w =
     (case mapE (\<lambda>r. lookup ''heading'' (c_heading (heap w r))) chunks of
        Inl e \<Rightarrow> (Inl e, w)
      | Inr headings \<Rightarrow>
          (let unique_headings = sort_key heading_key (remdups headings) in
           case fold (heading_step query chunks) unique_headings ([], w) of
             (structural_results, w') \<Rightarrow> (Inr structural_results, w')))"

subsection \<open>semantic_search and search_vector_store\<close>

text \<open>\<open>xs[i]\<close> on a Python list: a negative index counts from the end.\<close>

definition py_index :: "'a list \<Rightarrow> int \<Rightarrow> exn + 'a" where
  "py_index xs i =
     (if 0 \<le> i \<and> i < int (length xs) then Inr (xs ! nat i)
      else if i < 0 \<and> - int (length xs) \<le> i then Inr (xs ! nat (int (length xs) + i))
      else Inl (IndexError ''list index out of range''))"

text \<open>\<open>a[i]\<close> on a numpy array, for an index that is not negative.\<close>

definition np_index :: "'a list \<Rightarrow> nat \<Rightarrow> exn + 'a" where
  "np_index a i =
     (if i < length a then Inr (a ! i)
      else Inl (IndexError (''index '' @ show_nat i @ '' is out of bounds for axis 0 with size ''
                            @ show_nat (length a))))"

definition copy_chunk :: "nat \<Rightarrow> world \<Rightarrow> nat \<times> world" where
  "copy_chunk r w =
     (next_free w, w\<lparr>heap := (heap w)(next_free w := heap w r), next_free := Suc (next_free w)\<rparr>)"

definition set_similarity :: "nat \<Rightarrow> real \<Rightarrow> world \<Rightarrow> world" where
  "set_similarity a d w = w\<lparr>heap := (heap w)(a := (heap w a)\<lparr>similarity_score := Some d\<rparr>)\<rparr>"

text \<open>
  \<open>for i, idx in enumerate(indices[0])\<close>, with the guard \<open>idx < len(chunks)\<close> as it is
  written.
\<close>

fun gather :: "nat list \<Rightarrow> real list \<Rightarrow> int list \<Rightarrow> nat \<Rightarrow> nat list \<Rightarrow> world
    \<Rightarrow> (exn + nat list) \<times> world" where
  "gather chunks distances [] i retrieved_chunks w = (Inr retrieved_chunks, w)"
| "gather chunks distances (idx # indices) i retrieved_chunks w =
     (if idx < int (length chunks)
      then (case py_index chunks idx of
              Inl e \<Rightarrow> (Inl e, w)
            | Inr r \<Rightarrow>
                (case copy_chunk r w of
                   (a, w1) \<Rightarrow>
                     (case np_index distances i of
                        Inl e \<Rightarrow> (Inl e, w1)
                      | Inr d \<Rightarrow>
                          gather chunks distances indices (Suc i) (retrieved_chunks @ [a])
                            (set_similarity a d w1))))
      else gather chunks distances indices (Suc i) retrieved_chunks w)"

text \<open>
  The body both functions share; they differ in the notification of their handler only.
\<close>

definition vector_lookup :: "(string \<Rightarrow> ui_msg) \<Rightarrow> string \<Rightarrow> faiss_index \<Rightarrow> nat list \<Rightarrow> embedder
    \<Rightarrow> int \<Rightarrow> world \<Rightarrow> nat list \<times> world" where
  "vector_lookup on_error query index chunks embeddings_model top_k w =
     (let w1 = emit (Encode [query]) w in
      case embeddings_model [query] of
        Inl e \<Rightarrow> ([], emit (Notify (on_error (str_exn e))) w1)
      | Inr query_embedding \<Rightarrow>
          (let w2 = emit (Index_search query_embedding top_k) w1 in
           case index query_embedding top_k of
             Inl e \<Rightarrow> ([], emit (Notify (on_error (str_exn e))) w2)
           | Inr (distances, indices) \<Rightarrow>
               (case gather chunks distances indices 0 [] w2 of
                  (Inl e, w3) \<Rightarrow> ([], emit (Notify (on_error (str_exn e))) w3)
                | (Inr retrieved_chunks, w3) \<Rightarrow> (retrieved_chunks, w3))))"

definition semantic_search :: "string \<Rightarrow> faiss_index \<Rightarrow> nat list \<Rightarrow> embedder \<Rightarrow> int \<Rightarrow> world
    \<Rightarrow> nat list \<times> world" where
  "semantic_search = vector_lookup Semantic_search_error"

definition search_vector_store :: "string \<Rightarrow> faiss_index \<Rightarrow> nat list \<Rightarrow> embedder \<Rightarrow> int \<Rightarrow> world
    \<Rightarrow> nat list \<times> world" where
  "search_vector_store = vector_lookup Vector_store_error"

subsection \<open>rerank_results\<close>

text \<open>
  \<open>for i, chunk in enumerate(chunks): chunk['rerank_score'] = float(scores[i])\<close>, from
  the index \<open>i\<close> on: \<open>scores[i]\<close> raises when the array is too short, and each
  assignment writes into the dictionary at the chunk's address.
\<close>

fun write_scores :: "nat list \<Rightarrow> pyfloat list \<Rightarrow> nat \<Rightarrow> world \<Rightarrow> exn option \<times> world" where
  "write_scores [] scores i w = (None, w)"
| "write_scores (r # rs) scores i w =
     (case np_index scores i of
        Inl e \<Rightarrow> (Some e, w)
      | Inr s \<Rightarrow>
          write_scores rs scores (Suc i)
            (w\<lparr>heap := (heap w)(r := (heap w r)\<lparr>rerank_score := Some s\<rparr>)\<rparr>))"

text \<open>\<open>chunk.get('rerank_score', 0)\<close>; also the sort key once every chunk has a score.\<close>

definition score_of :: "world \<Rightarrow> nat \<Rightarrow> pyfloat" where
  "score_of w r = (case rerank_score (heap w r) of None \<Rightarrow> Num 0 | Some s \<Rightarrow> s)"

text \<open>The handler: notify and return \<open>chunks\<close> as they were passed.\<close>

definition rerank_except :: "exn \<Rightarrow> nat list \<Rightarrow> world \<Rightarrow> nat list \<times> world" where
  "rerank_except e chunks w = (chunks, emit (Notify (Reranking_error (str_exn e))) w)"

definition rerank_results :: "string \<Rightarrow> nat list \<Rightarrow> cross_encoder \<Rightarrow> world \<Rightarrow> nat list \<times> world"
  where
  "rerank_results query chunks reranker w =
     (if chunks = [] then ([], w)
      else
        case mapE (\<lambda>r. lookup ''text'' (c_text (heap w r))) chunks of
          Inl e \<Rightarrow> rerank_except e chunks w
        | Inr texts \<Rightarrow>
            (let rerank_pairs = map (\<lambda>t. (query, t)) texts;
                 w1 = emit (Predict rerank_pairs) w
             in case reranker rerank_pairs of
                  Inl e \<Rightarrow> rerank_except e chunks w1
                | Inr scores \<Rightarrow>
                    (case write_scores chunks scores 0 w1 of
                       (Some e, w2) \<Rightarrow> rerank_except e chunks w2
                     | (None, w2) \<Rightarrow>
                         (case mapE (\<lambda>r. lookup ''rerank_score'' (rerank_score (heap w2 r)))
                                 chunks of
                            Inl e \<Rightarrow> rerank_except e chunks w2
                          | Inr keys \<Rightarrow>
                              (sorted_reverse (score_of w2) chunks, w2)))))"

subsection \<open>advanced_retrieval\<close>

definition advanced_retrieval :: "string \<Rightarrow> faiss_index \<Rightarrow> nat list \<Rightarrow> embedder \<Rightarrow> cross_encoder
    \<Rightarrow> world \<Rightarrow> (exn + nat list) \<times> world" where
  "advanced_retrieval query index chunks embeddings_model reranker w =
     (case structural_search query chunks w of
        (Inl e, w1) \<Rightarrow> (Inl e, w1)
      | (Inr structural_results, w1) \<Rightarrow>
          if structural_results \<noteq> []
          then (case rerank_results query structural_results reranker w1 of
                  (reranked_chunks, w2) \<Rightarrow>
                    (Inr (take STRUCTURAL_SEARCH_TOP_K reranked_chunks), w2))
          else
            (case semantic_search query index chunks embeddings_model SEMANTIC_SEARCH_TOP_K
                    (emit (Notify No_direct_match) w1) of
               (semantic_results, w3) \<Rightarrow>
                 if semantic_results \<noteq> []
                 then (case rerank_results query semantic_results reranker w3 of
                         (reranked_chunks, w4) \<Rightarrow>
                           (Inr (take SEMANTIC_FALLBACK_TOP_K reranked_chunks), w4))
                 else (Inr [], w3)))"

subsection \<open>format_context_for_llm and get_search_statistics\<close>

text \<open>The f-string reads \<open>page_number\<close>, \<open>heading\<close> and \<open>text\<close>, in this order.\<close>

definition context_part :: "chunk \<Rightarrow> exn + string" where
  "context_part c =
     (case lookup ''page_number'' (c_page_number c) of
        Inl e \<Rightarrow> Inl e
      | Inr p \<Rightarrow>
          (case lookup ''heading'' (c_heading c) of
             Inl e \<Rightarrow> Inl e
           | Inr h \<Rightarrow>
               (case lookup ''text'' (c_text c) of
                  Inl e \<Rightarrow> Inl e
                | Inr t \<Rightarrow>
                    Inr (''--- Context from Page '' @ show_nat p @ '', Section: '' @ h @ '' ---''
                         @ [CHR 0x0A] @ t))))"

definition format_context_for_llm :: "world \<Rightarrow> nat list \<Rightarrow> exn + string" where
  "format_context_for_llm w retrieved_chunks =
     (if retrieved_chunks = [] then Inr ''No relevant context found.''
      else case mapE (\<lambda>r. context_part (heap w r)) retrieved_chunks of
             Inl e \<Rightarrow> Inl e
           | Inr context_parts \<Rightarrow> Inr (join [CHR 0x0A, CHR 0x0A] context_parts))"

record search_stats =
  total_chunks :: nat
  unique_pages :: nat
  unique_sections :: nat
  avg_rerank_score :: pyfloat
  score_range :: "pyfloat \<times> pyfloat"

text \<open>What \<open>get_search_statistics\<close> returns for no chunks.\<close>

definition no_statistics :: search_stats where
  "no_statistics =
     \<lparr>total_chunks = 0, unique_pages = 0, unique_sections = 0, avg_rerank_score = Num 0,
      score_range = (Num 0, Num 0)\<rparr>"

definition get_search_statistics :: "float_arith \<Rightarrow> world \<Rightarrow> nat list \<Rightarrow> exn + search_stats"
  where
  "get_search_statistics fl w retrieved_chunks =
     (if retrieved_chunks = [] then Inr no_statistics
      else
        case mapE (\<lambda>r. lookup ''page_number'' (c_page_number (heap w r))) retrieved_chunks of
          Inl e \<Rightarrow> Inl e
        | Inr pages \<Rightarrow>
            (case mapE (\<lambda>r. lookup ''heading'' (c_heading (heap w r))) retrieved_chunks of
               Inl e \<Rightarrow> Inl e
             | Inr sections \<Rightarrow>
                 (let rerank_scores = map (score_of w) retrieved_chunks;
                      avg_score = (if rerank_scores \<noteq> []
                                   then float_div fl (float_sum fl rerank_scores)
                                          (length rerank_scores)
                                   else Num 0);
                      range = (if rerank_scores \<noteq> []
                               then (py_min rerank_scores, py_max rerank_scores)
                               else (Num 0, Num 0))
                  in Inr \<lparr>total_chunks = length retrieved_chunks,
                          unique_pages = length (remdups pages),
                          unique_sections = length (remdups sections),
                          avg_rerank_score = avg_score,
                          score_range = range\<rparr>)))"

subsection \<open>AdvancedRetriever.retrieve\<close>

text \<open>
  The returned dictionary; the key \<open>error\<close> is present in the failure case only. The three
  steps inside \<open>try\<close> are \<open>retrieve_steps\<close>; whatever they raise is caught. The first
  argument is the interpreter's float arithmetic.
\<close>

record retrieval_result =
  r_success :: bool
  r_error :: "string option"
  r_chunks :: "nat list"
  r_context :: string
  r_statistics :: search_stats
  r_query :: string

definition retrieve_steps :: "float_arith \<Rightarrow> string \<Rightarrow> faiss_index \<Rightarrow> nat list \<Rightarrow> embedder
    \<Rightarrow> cross_encoder \<Rightarrow> world \<Rightarrow> (exn + nat list \<times> string \<times> search_stats) \<times> world" where
  "retrieve_steps fl query index chunks embeddings_model reranker w =
     (case advanced_retrieval query index chunks embeddings_model reranker w of
        (Inl e, w') \<Rightarrow> (Inl e, w')
      | (Inr retrieved_chunks, w') \<Rightarrow>
          (case format_context_for_llm w' retrieved_chunks of
             Inl e \<Rightarrow> (Inl e, w')
           | Inr ctx \<Rightarrow>
               (case get_search_statistics fl w' retrieved_chunks of
                  Inl e \<Rightarrow> (Inl e, w')
                | Inr stats \<Rightarrow> (Inr (retrieved_chunks, ctx, stats), w'))))"

definition retrieve :: "float_arith \<Rightarrow> embedder \<Rightarrow> cross_encoder \<Rightarrow> string \<Rightarrow> faiss_index
    \<Rightarrow> nat list \<Rightarrow> world \<Rightarrow> retrieval_result \<times> world" where
  "retrieve fl embeddings_model reranker query index chunks w =
     (case retrieve_steps fl query index chunks embeddings_model reranker w of
        (Inr (retrieved_chunks, ctx, stats), w') \<Rightarrow>
          (\<lparr>r_success = True, r_error = None, r_chunks = retrieved_chunks, r_context = ctx,
            r_statistics = stats, r_query = query\<rparr>, w')
      | (Inl e, w') \<Rightarrow>
          (\<lparr>r_success = False, r_error = Some (str_exn e), r_chunks = [],
            r_context = ''Error occurred during retrieval.'', r_statistics = no_statistics,
            r_query = query\<rparr>, w'))"

section \<open>The statements of the specification, and sample inputs\<close>

subsection \<open>Segmenter\<close>

text \<open>
  "Equal up to whitespace normalization" is read in its weakest form: two texts agree when
  they agree after every whitespace character is removed. Texts that differ under
  \<open>squeeze\<close> differ under any normalization that only touches whitespace.
\<close>

definition squeeze :: "string \<Rightarrow> string" where
  "squeeze s = filter (\<lambda>c. \<not> is_space c) s"

text \<open>
  The stronger reading keeps the words: the maximal runs of characters that are not
  whitespace, in order, as \<open>str.split()\<close> gives them. Two texts with the same words agree
  under every normalization that collapses or trims runs of whitespace. \<open>split_ws\<close> carries
  the word that is being read.
\<close>

fun split_ws :: "string \<Rightarrow> string \<Rightarrow> string list" where
  "split_ws cur [] = (if cur = [] then [] else [cur])"
| "split_ws cur (c # cs) =
     (if is_space c then (if cur = [] then split_ws [] cs else cur # split_ws [] cs)
      else split_ws (cur @ [c]) cs)"

definition split_words :: "string \<Rightarrow> string list" where
  "split_words s = split_ws [] s"

text \<open>
  The lines of the document that are not heading lines, and the documents in which no line
  is one. The segmenter tests the stripped line, and skips a blank line before the test; a
  blank line is not a heading in any case.
\<close>

definition body_lines :: "string list \<Rightarrow> string list" where
  "body_lines doc = filter (\<lambda>l. \<not> heading_match (strip l)) (concat (map split_nl doc))"

definition no_heading_line :: "string list \<Rightarrow> bool" where
  "no_heading_line doc = list_all (\<lambda>l. \<not> heading_match (strip l)) (concat (map split_nl doc))"

text \<open>
  The specification's outcome for a document without headings: one synthetic block with
  all the extracted text (the block of the segmenter's last branch).
\<close>

definition single_synthetic_block :: "string list \<Rightarrow> block list" where
  "single_synthetic_block doc =
     [\<lparr>page_number = 1, heading = ''Document Content'', content = strip (concat doc)\<rparr>]"

text \<open>
  What a page contributes when no line of it is a heading: its non-blank lines, each
  followed by a newline; and the blocks of a document of such pages, one for each page
  that has a non-blank line, numbered from \<open>n + 1\<close>.
\<close>

definition page_buffer :: "string \<Rightarrow> string" where
  "page_buffer page =
     concat (map (\<lambda>l. l @ [CHR 0x0A]) (filter (\<lambda>l. strip l \<noteq> []) (split_nl page)))"

fun blocks_by_page :: "nat \<Rightarrow> string list \<Rightarrow> block list" where
  "blocks_by_page n [] = []"
| "blocks_by_page n (page # rest) =
     (if strip (page_buffer page) = [] then []
      else [\<lparr>page_number = n + 1, heading = ''Introduction'',
             content = strip (page_buffer page)\<rparr>])
     @ blocks_by_page (Suc n) rest"

subsection \<open>Structural matcher\<close>

text \<open>
  The order the specification gives to \<open>match\<close>: the headings that hit, in the order of
  their first appearance in the chunk list, and under each heading its chunks in chunk
  order.
\<close>

definition first_appearance :: "'a list \<Rightarrow> 'a list" where
  "first_appearance xs = rev (remdups (rev xs))"

definition match_in_document_order :: "string \<Rightarrow> nat list \<Rightarrow> world \<Rightarrow> nat list" where
  "match_in_document_order query chunks w =
     concat (map (\<lambda>h. filter (\<lambda>r. c_heading (heap w r) = Some h) chunks)
       (filter (direct_hit query)
          (first_appearance (concat (map (\<lambda>r. case c_heading (heap w r) of None \<Rightarrow> [] | Some h \<Rightarrow> [h]) chunks)))))"

subsection \<open>Reranker\<close>

text \<open>
  Scores in non-increasing order: each score is \<open>>=\<close> the next, as Python compares
  floats, which no comparison with NaN satisfies.
\<close>

fun fge :: "pyfloat \<Rightarrow> pyfloat \<Rightarrow> bool" where
  "fge (Num a) (Num b) = (b \<le> a)"
| "fge _ _ = False"

definition non_increasing :: "pyfloat list \<Rightarrow> bool" where
  "non_increasing xs = sorted_wrt fge xs"

subsection \<open>Sample inputs\<close>

text \<open>
  A store of four chunks as \<open>create_metadata_chunks\<close> builds them; every other address
  holds a dictionary without keys.
\<close>

definition empty_dict :: chunk where
  "empty_dict = \<lparr>c_text = None, c_page_number = None, c_heading = None,
     similarity_score = None, rerank_score = None\<rparr>"

definition sample_world :: world where
  "sample_world =
     \<lparr>heap = (\<lambda>_. empty_dict)
        (0 := new_chunk ''We measured the samples twice'' 2 ''2 Results'',
         1 := new_chunk ''Some background'' 1 ''Intro'',
         2 := new_chunk ''More numbers'' 3 ''2 Results'',
         3 := new_chunk ''Other materials'' 4 ''Intro''),
      next_free = 4, trace = []\<rparr>"

text \<open>
  A cross-encoder that scores a pair by the length of its passage, and one that raises.
\<close>

definition length_scorer :: cross_encoder where
  "length_scorer pairs = Inr (map (\<lambda>p. Num (real (length (snd p)))) pairs)"

definition failing_scorer :: cross_encoder where
  "failing_scorer pairs = Inl (ExternalError ''model not loaded'')"

text \<open>A cross-encoder whose second score is NaN.\<close>

definition nan_scorer :: cross_encoder where
  "nan_scorer pairs = Inr [Num 1, NaN, Num 2]"

text \<open>
  Float arithmetic on values whose sums and quotients are floats themselves, where
  nothing is rounded.
\<close>

definition exact_arith :: float_arith where
  "exact_arith =
     \<lparr>float_sum = (\<lambda>xs. if NaN \<in> set xs then NaN else Num (sum_list (map num_of xs))),
      float_div = (\<lambda>x n. case x of NaN \<Rightarrow> NaN | Num a \<Rightarrow> Num (a / real n))\<rparr>"

text \<open>
  An embedding model that raises and one that returns a fixed vector; an index of two
  vectors that answers as FAISS does: \<open>k\<close> entries, nearest first, and where the index has
  fewer than \<open>k\<close> vectors the missing entries carry the label \<open>-1\<close> and the distance
  \<open>FLT_MAX\<close>.
\<close>

definition dead_embedder :: embedder where
  "dead_embedder texts = Inl (ExternalError ''model not loaded'')"

definition unit_embedder :: embedder where
  "unit_embedder texts = Inr (map (\<lambda>t. [1, 0]) texts)"

definition FLT_MAX :: real where
  "FLT_MAX = 340282346638528859811704183484516925440"

definition two_vector_index :: faiss_index where
  "two_vector_index v k =
     Inr (take (nat k) ([1 / 4, 1 / 2] @ replicate (nat k - 2) FLT_MAX),
          take (nat k) ([1, 0] @ replicate (nat k - 2) (- 1)))"

section \<open>Verification: the matcher\<close>

text \<open>
  A round of a repetition must consume a character, so the length of the string bounds
  the number of rounds: a larger bound gives the same matches.
\<close>

lemma star_m_fuel:
  "length s \<le> n \<Longrightarrow> length s \<le> k \<Longrightarrow> star_m m n s = star_m m k s"
proof (induction n arbitrary: k s)
  case 0
  then show ?case by (cases k) simp_all
next
  case (Suc n)
  show ?case
  proof (cases k)
    case 0
    with Suc.prems show ?thesis by simp
  next
    case (Suc k')
    have "star_m m n t = star_m m k' t"
      if "t \<in> set (filter (\<lambda>t. length t < length s) (m s))" for t
    proof -
      from that have "length t < length s" by simp
      with Suc.prems \<open>k = Suc k'\<close> have "length t \<le> n" and "length t \<le> k'" by simp_all
      then show ?thesis by (rule Suc.IH)
    qed
    then have "map (star_m m n) (filter (\<lambda>t. length t < length s) (m s)) =
               map (star_m m k') (filter (\<lambda>t. length t < length s) (m s))"
      by (rule map_cong [OF refl])
    then show ?thesis
      unfolding \<open>k = Suc k'\<close> star_m.simps by (rule arg_cong)
  qed
qed

lemma rmatch_Star_fuel:
  "length s \<le> n \<Longrightarrow> rmatch (Star a) s = star_m (rmatch a) n s"
  using star_m_fuel [of s "length s" n "rmatch a"] by simp

section \<open>Verification: the segmenter\<close>

lemma squeeze_append [simp]: "squeeze (a @ b) = squeeze a @ squeeze b"
  by (simp add: squeeze_def)

lemma squeeze_Nil [simp]: "squeeze [] = []"
  by (simp add: squeeze_def)

lemma squeeze_dropWhile: "squeeze (dropWhile is_space s) = squeeze s"
  by (induction s) (simp_all add: squeeze_def)

lemma squeeze_rev: "squeeze (rev s) = rev (squeeze s)"
  by (simp add: squeeze_def rev_filter)

lemma squeeze_strip [simp]: "squeeze (strip s) = squeeze s"
  by (simp add: strip_def squeeze_rev squeeze_dropWhile)

lemma squeeze_empty_iff: "squeeze s = [] \<longleftrightarrow> (\<forall>c \<in> set s. is_space c)"
  by (auto simp: squeeze_def filter_empty_conv)

lemma strip_empty_iff: "strip s = [] \<longleftrightarrow> squeeze s = []"
proof
  assume "strip s = []"
  then have "squeeze (strip s) = []" by simp
  then show "squeeze s = []" by simp
next
  assume "squeeze s = []"
  then have "\<forall>c \<in> set s. is_space c" by (simp add: squeeze_empty_iff)
  then have "dropWhile is_space s = []" by (simp only: dropWhile_eq_Nil_conv)
  then show "strip s = []" unfolding strip_def by (simp only: rev.simps dropWhile.simps)
qed

lemma split_nl_not_Nil [simp]: "split_nl s \<noteq> []"
  by (induction s) (auto split: list.splits)

lemma is_space_newline [simp]: "is_space (CHR 0x0A)"
  by (simp add: is_space_def whitespace_chars_def)

lemma squeeze_newline [simp]: "squeeze [CHR 0x0A] = []"
  by (simp add: squeeze_def)

lemma squeeze_split_nl: "squeeze (concat (split_nl s)) = squeeze s"
proof (induction s)
  case Nil
  then show ?case by simp
next
  case (Cons c cs)
  show ?case
  proof (cases "c = CHR 0x0A")
    case True
    then show ?thesis using Cons by (simp add: squeeze_def)
  next
    case False
    obtain l ls where l: "split_nl cs = l # ls"
      by (cases "split_nl cs") simp_all
    then have "concat (split_nl (c # cs)) = c # concat (split_nl cs)"
      using False by simp
    then show ?thesis using Cons by (simp add: squeeze_def)
  qed
qed

lemma heading_match_Nil [simp]: "\<not> heading_match []"
  by code_simp

text \<open>What a state of the scan holds, whitespace apart.\<close>

lemma squeeze_flush:
  "squeeze (concat (map content (flush_buffer p h buf st))) =
   squeeze (concat (map content st)) @ squeeze buf"
  by (simp add: flush_buffer_def strip_empty_iff)

lemma scan_line_squeeze:
  "scan_line p l (st, h, buf) = (st', h', buf') \<Longrightarrow>
   squeeze (concat (map content st')) @ squeeze buf' =
   squeeze (concat (map content st)) @ squeeze buf @
     (if heading_match (strip l) then [] else squeeze l)"
  by (auto simp: Let_def squeeze_flush strip_empty_iff split: if_splits)

lemma fold_scan_line_squeeze:
  "fold (scan_line p) ls (st, h, buf) = (st', h', buf') \<Longrightarrow>
   squeeze (concat (map content st')) @ squeeze buf' =
   squeeze (concat (map content st)) @ squeeze buf @
     squeeze (concat (filter (\<lambda>l. \<not> heading_match (strip l)) ls))"
proof (induction ls arbitrary: st h buf)
  case Nil
  then show ?case by simp
next
  case (Cons l ls)
  obtain st1 h1 buf1 where s1: "scan_line p l (st, h, buf) = (st1, h1, buf1)"
    by (cases "scan_line p l (st, h, buf)")
  from Cons.prems have "fold (scan_line p) ls (st1, h1, buf1) = (st', h', buf')"
    by (simp only: fold_simps s1)
  from Cons.IH [OF this] scan_line_squeeze [OF s1]
  show ?case by simp
qed

lemma scan_page_squeeze:
  "scan_page p text (st, h) = (st', h') \<Longrightarrow>
   squeeze (concat (map content st')) =
   squeeze (concat (map content st)) @
     squeeze (concat (filter (\<lambda>l. \<not> heading_match (strip l)) (split_nl text)))"
proof -
  assume a: "scan_page p text (st, h) = (st', h')"
  obtain st1 h1 buf1 where f: "fold (scan_line p) (split_nl text) (st, h, []) = (st1, h1, buf1)"
    by (cases "fold (scan_line p) (split_nl text) (st, h, [])")
  with a have st': "st' = flush_buffer p h1 buf1 st1" by auto
  show ?thesis
    unfolding st' squeeze_flush using fold_scan_line_squeeze [OF f] by simp
qed

lemma scan_pages_squeeze:
  "scan_pages n doc (st, h) = (st', h') \<Longrightarrow>
   squeeze (concat (map content st')) =
   squeeze (concat (map content st)) @ squeeze (concat (body_lines doc))"
proof (induction doc arbitrary: n st h)
  case Nil
  then show ?case by (simp add: body_lines_def)
next
  case (Cons page rest)
  obtain st1 h1 where p: "scan_page (n + 1) page (st, h) = (st1, h1)"
    by (cases "scan_page (n + 1) page (st, h)")
  from Cons.prems have "scan_pages (Suc n) rest (st1, h1) = (st', h')"
    by (simp only: scan_pages.simps p)
  from Cons.IH [OF this] scan_page_squeeze [OF p]
  show ?case by (simp add: body_lines_def)
qed

lemma flush_nonblank:
  "\<forall>b \<in> set st. squeeze (content b) \<noteq> [] \<Longrightarrow>
   \<forall>b \<in> set (flush_buffer p h buf st). squeeze (content b) \<noteq> []"
  by (auto simp: flush_buffer_def strip_empty_iff)

lemma fold_scan_line_nonblank:
  "fold (scan_line p) ls (st, h, buf) = (st', h', buf') \<Longrightarrow>
   \<forall>b \<in> set st. squeeze (content b) \<noteq> [] \<Longrightarrow>
   \<forall>b \<in> set st'. squeeze (content b) \<noteq> []"
proof (induction ls arbitrary: st h buf)
  case Nil
  then show ?case by simp
next
  case (Cons l ls)
  obtain st1 h1 buf1 where s1: "scan_line p l (st, h, buf) = (st1, h1, buf1)"
    by (cases "scan_line p l (st, h, buf)")
  from Cons.prems(1) have f: "fold (scan_line p) ls (st1, h1, buf1) = (st', h', buf')"
    by (simp only: fold_simps s1)
  have "\<forall>b \<in> set st1. squeeze (content b) \<noteq> []"
    using s1 flush_nonblank [OF Cons.prems(2), of p h buf] Cons.prems(2)
    by (auto simp: Let_def split: if_splits)
  with Cons.IH [OF f] show ?case by blast
qed

lemma scan_page_nonblank:
  "scan_page p text (st, h) = (st', h') \<Longrightarrow>
   \<forall>b \<in> set st. squeeze (content b) \<noteq> [] \<Longrightarrow>
   \<forall>b \<in> set st'. squeeze (content b) \<noteq> []"
proof -
  assume a: "scan_page p text (st, h) = (st', h')"
    and inv: "\<forall>b \<in> set st. squeeze (content b) \<noteq> []"
  obtain st1 h1 buf1 where f: "fold (scan_line p) (split_nl text) (st, h, []) = (st1, h1, buf1)"
    by (cases "fold (scan_line p) (split_nl text) (st, h, [])")
  with a have st': "st' = flush_buffer p h1 buf1 st1" by auto
  show ?thesis
    unfolding st' using fold_scan_line_nonblank [OF f inv] by (rule flush_nonblank)
qed

lemma scan_pages_nonblank:
  "scan_pages n doc (st, h) = (st', h') \<Longrightarrow>
   \<forall>b \<in> set st. squeeze (content b) \<noteq> [] \<Longrightarrow>
   \<forall>b \<in> set st'. squeeze (content b) \<noteq> []"
proof (induction doc arbitrary: n st h)
  case Nil
  then show ?case by simp
next
  case (Cons page rest)
  obtain st1 h1 where p: "scan_page (n + 1) page (st, h) = (st1, h1)"
    by (cases "scan_page (n + 1) page (st, h)")
  from Cons.prems(1) have r: "scan_pages (Suc n) rest (st1, h1) = (st', h')"
    by (simp only: scan_pages.simps p)
  from Cons.IH [OF r scan_page_nonblank [OF p Cons.prems(2)]]
  show ?case .
qed

lemma squeeze_doc: "squeeze (concat (concat (map split_nl doc))) = squeeze (concat doc)"
  by (induction doc) (simp_all add: squeeze_split_nl)

lemma body_lines_all: "no_heading_line doc \<Longrightarrow> body_lines doc = concat (map split_nl doc)"
  by (simp add: no_heading_line_def body_lines_def list_all_iff)

text \<open>The same, word by word.\<close>

lemma split_ws_space:
  "is_space c \<Longrightarrow> split_ws cur (a @ c # b) = split_ws cur a @ split_ws [] b"
  by (induction a arbitrary: cur) simp_all

lemma split_ws_blank: "\<forall>c \<in> set s. is_space c \<Longrightarrow> split_ws [] s = []"
  by (induction s) simp_all

lemma split_words_Nil [simp]: "split_words [] = []"
  by (simp add: split_words_def)

lemma split_words_before_space:
  "is_space c \<Longrightarrow> split_words (a @ c # b) = split_words a @ split_words b"
  by (simp add: split_words_def split_ws_space)

lemma split_words_trailing:
  "\<forall>c \<in> set ws. is_space c \<Longrightarrow> split_words (a @ ws) = split_words a"
proof (cases ws)
  case Nil
  then show ?thesis by simp
next
  case (Cons c ws')
  assume "\<forall>c \<in> set ws. is_space c"
  with Cons have c: "is_space c" and ws': "\<forall>c \<in> set ws'. is_space c" by simp_all
  show ?thesis
    unfolding Cons split_words_def split_ws_space [OF c] split_ws_blank [OF ws'] by simp
qed

lemma split_words_after_space:
  assumes "a = [] \<or> is_space (last a)"
  shows "split_words (a @ b) = split_words a @ split_words b"
proof (cases a rule: rev_cases)
  case Nil
  then show ?thesis by simp
next
  case (snoc a' c)
  with assms have c: "is_space c" by simp
  have "split_words (a' @ [c]) = split_words a'"
    using split_words_trailing [of "[c]" a'] c by simp
  moreover have "split_words ((a' @ [c]) @ b) = split_words a' @ split_words b"
    using split_words_before_space [OF c, of a' b] by simp
  ultimately show ?thesis unfolding snoc by simp
qed

lemma split_words_dropWhile: "split_words (dropWhile is_space s) = split_words s"
  by (induction s) (simp_all add: split_words_def)

lemma split_words_strip [simp]: "split_words (strip s) = split_words s"
proof -
  let ?t = "dropWhile is_space s"
  have "rev ?t = takeWhile is_space (rev ?t) @ dropWhile is_space (rev ?t)"
    by (simp only: takeWhile_dropWhile_id)
  then have "rev (rev ?t) = rev (takeWhile is_space (rev ?t) @ dropWhile is_space (rev ?t))"
    by (rule arg_cong)
  then have t: "?t = strip s @ rev (takeWhile is_space (rev ?t))"
    unfolding strip_def rev_append rev_rev_ident .
  have "\<forall>c \<in> set (rev (takeWhile is_space (rev ?t))). is_space c"
    by (auto dest: set_takeWhileD)
  from split_words_trailing [OF this, of "strip s"] t
  have "split_words ?t = split_words (strip s)" by simp
  then show ?thesis by (simp add: split_words_dropWhile)
qed

lemma split_words_blank: "squeeze s = [] \<Longrightarrow> split_words s = []"
  by (simp add: squeeze_empty_iff split_words_def split_ws_blank)

lemma concat_split_ws: "concat (split_ws cur s) = cur @ squeeze s"
  by (induction s arbitrary: cur) (simp_all add: squeeze_def)

lemma concat_split_words: "concat (split_words s) = squeeze s"
  by (simp add: split_words_def concat_split_ws)

lemma split_words_split_nl_prefix:
  "concat (map split_words (case split_nl s of l # ls \<Rightarrow> (p @ l) # ls | [] \<Rightarrow> [])) =
   split_words (p @ s)"
proof (induction s arbitrary: p)
  case Nil
  then show ?case by simp
next
  case (Cons c cs)
  obtain l ls where l: "split_nl cs = l # ls"
    by (cases "split_nl cs") simp_all
  show ?case
  proof (cases "c = CHR 0x0A")
    case True
    have "concat (map split_words (split_nl cs)) = split_words cs"
      using Cons.IH [of "[]"] l by simp
    then show ?thesis
      using True split_words_before_space [of c p cs] by simp
  next
    case False
    then show ?thesis using Cons.IH [of "p @ [c]"] l by simp
  qed
qed

lemma split_words_split_nl: "concat (map split_words (split_nl s)) = split_words s"
proof -
  obtain l ls where l: "split_nl s = l # ls"
    by (cases "split_nl s") simp_all
  have "concat (map split_words (case l # ls of l # ls \<Rightarrow> ([] @ l) # ls | [] \<Rightarrow> [])) =
      split_words ([] @ s)"
    using split_words_split_nl_prefix [where s = s and p = "[]"] by (simp only: l)
  then show ?thesis by (simp add: l)
qed

lemma words_flush:
  "concat (map (\<lambda>b. split_words (content b)) (flush_buffer p h buf st)) =
   concat (map (\<lambda>b. split_words (content b)) st) @ split_words buf"
  by (simp add: flush_buffer_def strip_empty_iff split_words_blank)

lemma scan_line_words:
  assumes step: "scan_line p l (st, h, buf) = (st', h', buf')"
    and closed: "buf = [] \<or> is_space (last buf)"
  shows "(buf' = [] \<or> is_space (last buf'))
       \<and> concat (map (\<lambda>b. split_words (content b)) st') @ split_words buf' =
         concat (map (\<lambda>b. split_words (content b)) st) @ split_words buf @
           (if heading_match (strip l) then [] else split_words l)"
proof (cases "strip l = []")
  case True
  then have "split_words l = []" by (simp add: strip_empty_iff split_words_blank)
  then show ?thesis using step closed True by (simp add: Let_def)
next
  case False
  show ?thesis
  proof (cases "heading_match (strip l)")
    case True
    then show ?thesis using step False by (auto simp: Let_def words_flush)
  next
    case no_heading: False
    have buf': "buf' = buf @ l @ [CHR 0x0A]" and st': "st' = st"
      using step False no_heading by (simp_all add: Let_def)
    have "split_words (buf @ l @ [CHR 0x0A]) = split_words buf @ split_words (l @ [CHR 0x0A])"
      by (rule split_words_after_space [OF closed])
    also have "split_words (l @ [CHR 0x0A]) = split_words l"
      by (rule split_words_trailing) simp
    finally show ?thesis using no_heading by (simp add: buf' st')
  qed
qed

lemma fold_scan_line_words:
  "fold (scan_line p) ls (st, h, buf) = (st', h', buf') \<Longrightarrow>
   buf = [] \<or> is_space (last buf) \<Longrightarrow>
   concat (map (\<lambda>b. split_words (content b)) st') @ split_words buf' =
   concat (map (\<lambda>b. split_words (content b)) st) @ split_words buf @
     concat (map split_words (filter (\<lambda>l. \<not> heading_match (strip l)) ls))"
proof (induction ls arbitrary: st h buf)
  case Nil
  then show ?case by simp
next
  case (Cons l ls)
  obtain st1 h1 buf1 where s1: "scan_line p l (st, h, buf) = (st1, h1, buf1)"
    by (cases "scan_line p l (st, h, buf)")
  from Cons.prems(1) have f: "fold (scan_line p) ls (st1, h1, buf1) = (st', h', buf')"
    by (simp only: fold_simps s1)
  note line = scan_line_words [OF s1 Cons.prems(2)]
  from Cons.IH [OF f line [THEN conjunct1]] line [THEN conjunct2]
  show ?case by simp
qed

lemma scan_page_words:
  assumes a: "scan_page p page (st, h) = (st', h')"
  shows "concat (map (\<lambda>b. split_words (content b)) st') =
   concat (map (\<lambda>b. split_words (content b)) st) @
     concat (map split_words (filter (\<lambda>l. \<not> heading_match (strip l)) (split_nl page)))"
proof -
  obtain st1 h1 buf1 where f: "fold (scan_line p) (split_nl page) (st, h, []) = (st1, h1, buf1)"
    by (cases "fold (scan_line p) (split_nl page) (st, h, [])")
  with a have st': "st' = flush_buffer p h1 buf1 st1" by auto
  show ?thesis
    unfolding st' words_flush using fold_scan_line_words [OF f] by simp
qed

lemma scan_pages_words:
  "scan_pages n doc (st, h) = (st', h') \<Longrightarrow>
   concat (map (\<lambda>b. split_words (content b)) st') =
   concat (map (\<lambda>b. split_words (content b)) st) @ concat (map split_words (body_lines doc))"
proof (induction doc arbitrary: n st h)
  case Nil
  then show ?case by (simp add: body_lines_def)
next
  case (Cons page rest)
  obtain st1 h1 where p: "scan_page (n + 1) page (st, h) = (st1, h1)"
    by (cases "scan_page (n + 1) page (st, h)")
  from Cons.prems have "scan_pages (Suc n) rest (st1, h1) = (st', h')"
    by (simp only: scan_pages.simps p)
  from Cons.IH [OF this] scan_page_words [OF p]
  show ?case by (simp add: body_lines_def)
qed

lemma words_doc: "concat (map split_words (concat (map split_nl doc))) = concat (map split_words doc)"
  by (induction doc) (simp_all add: split_words_split_nl)

text \<open>
  C2, as amended. For a document whose extracted text is not blank: when some line that is
  not a heading has a non-whitespace character, the words of the contents of the blocks, in
  block order, are the words of the lines of the pages that are not heading lines, in
  order, and so the contents, concatenated, equal up to whitespace the extracted text
  without its heading lines; when there is no such line, the single block
  \<open>Document Content\<close> holds the whole trimmed text. For a document without heading lines
  the words of the contents are the words of the pages, and the contents equal the
  extracted text up to whitespace.
\<close>

theorem extract_structured_text_keeps_body_text:
  assumes nonempty: "strip (concat doc) \<noteq> []"
  shows "(squeeze (concat (body_lines doc)) \<noteq> [] \<longrightarrow>
            concat (map (\<lambda>b. split_words (content b)) (fst (extract_structured_text doc))) =
              concat (map split_words (body_lines doc))
          \<and> squeeze (concat (map content (fst (extract_structured_text doc)))) =
              squeeze (concat (body_lines doc)))
       \<and> (squeeze (concat (body_lines doc)) = [] \<longrightarrow>
            fst (extract_structured_text doc) =
              [\<lparr>page_number = 1, heading = ''Document Content'', content = strip (concat doc)\<rparr>])
       \<and> (no_heading_line doc \<longrightarrow>
            concat (map (\<lambda>b. split_words (content b)) (fst (extract_structured_text doc))) =
              concat (map split_words doc)
          \<and> squeeze (concat (map content (fst (extract_structured_text doc)))) =
              squeeze (concat doc))"
proof -
  obtain st h where run: "scan_pages 0 doc ([], DEFAULT_HEADING) = (st, h)"
    by (cases "scan_pages 0 doc ([], DEFAULT_HEADING)")
  have sq: "squeeze (concat (map content st)) = squeeze (concat (body_lines doc))"
    using scan_pages_squeeze [OF run] by simp
  have ws: "concat (map (\<lambda>b. split_words (content b)) st) =
      concat (map split_words (body_lines doc))"
    using scan_pages_words [OF run] by simp
  have doc: "doc \<noteq> []" using nonempty by (auto simp: strip_def)
  have ex: "fst (extract_structured_text doc) =
      (if st = [] then [\<lparr>page_number = 1, heading = ''Document Content'',
                          content = strip (concat doc)\<rparr>] else st)"
    using nonempty doc by (simp add: extract_structured_text_def Let_def run)
  have some: "concat (map (\<lambda>b. split_words (content b)) (fst (extract_structured_text doc))) =
              concat (map split_words (body_lines doc))
          \<and> squeeze (concat (map content (fst (extract_structured_text doc)))) =
              squeeze (concat (body_lines doc))" if "squeeze (concat (body_lines doc)) \<noteq> []"
  proof -
    from that sq have "st \<noteq> []" by auto
    then show ?thesis using ex sq ws by simp
  qed
  have blocks_nonblank: "\<forall>b \<in> set st. squeeze (content b) \<noteq> []"
    using scan_pages_nonblank [OF run] by simp
  have none: "fst (extract_structured_text doc) =
              [\<lparr>page_number = 1, heading = ''Document Content'', content = strip (concat doc)\<rparr>]"
    if "squeeze (concat (body_lines doc)) = []"
  proof -
    have "st = []"
    proof (rule ccontr)
      assume "st \<noteq> []"
      then obtain b bs where "st = b # bs" by (cases st) auto
      with blocks_nonblank sq that show False by auto
    qed
    then show ?thesis using ex by simp
  qed
  have plain: "concat (map (\<lambda>b. split_words (content b)) (fst (extract_structured_text doc))) =
              concat (map split_words doc)
          \<and> squeeze (concat (map content (fst (extract_structured_text doc)))) =
              squeeze (concat doc)" if "no_heading_line doc"
  proof -
    have all: "squeeze (concat (body_lines doc)) = squeeze (concat doc)"
      using that by (simp add: body_lines_all squeeze_doc)
    have allw: "concat (map split_words (body_lines doc)) = concat (map split_words doc)"
      using that by (simp add: body_lines_all words_doc)
    have "squeeze (concat doc) \<noteq> []"
      using nonempty by (simp add: strip_empty_iff)
    with all some allw show ?thesis by simp
  qed
  show ?thesis using some none plain by blast
qed

text \<open>
  C2, amended, at a page with a heading between two lines of text, and at a page of
  headings only.
\<close>

theorem extract_structured_text_keeps_body_text_witness:
  "concat (map (\<lambda>b. split_words (content b)) (fst (extract_structured_text
      [''intro  text\<newline>1 Methods\<newline>we did things\<newline>'']))) =
     [''intro'', ''text'', ''we'', ''did'', ''things'']
   \<and> squeeze (concat (map content (fst (extract_structured_text
      [''intro  text\<newline>1 Methods\<newline>we did things\<newline>''])))) = ''introtextwedidthings''
   \<and> fst (extract_structured_text [''1 Methods\<newline>2 Results\<newline>'']) =
       [\<lparr>page_number = 1, heading = ''Document Content'',
         content = ''1 Methods\<newline>2 Results''\<rparr>]"
proof -
  let ?d1 = "[''intro  text\<newline>1 Methods\<newline>we did things\<newline>'']"
  let ?d2 = "[''1 Methods\<newline>2 Results\<newline>'']"
  have n1: "strip (concat ?d1) \<noteq> []" by code_simp
  have n2: "strip (concat ?d2) \<noteq> []" by code_simp
  have b1: "squeeze (concat (body_lines ?d1)) = ''introtextwedidthings''" by code_simp
  have w1: "concat (map split_words (body_lines ?d1)) =
      [''intro'', ''text'', ''we'', ''did'', ''things'']" by code_simp
  have b2: "squeeze (concat (body_lines ?d2)) = []" by code_simp
  have s2: "strip (concat ?d2) = ''1 Methods\<newline>2 Results''" by code_simp
  have ne: "''introtextwedidthings'' \<noteq> []" by simp
  note t1 = extract_structured_text_keeps_body_text [OF n1, THEN conjunct1, rule_format]
  note t2 = extract_structured_text_keeps_body_text
    [OF n2, THEN conjunct2, THEN conjunct1, rule_format, OF b2]
  have a: "concat (map (\<lambda>b. split_words (content b)) (fst (extract_structured_text ?d1))) =
      [''intro'', ''text'', ''we'', ''did'', ''things'']
    \<and> squeeze (concat (map content (fst (extract_structured_text ?d1)))) =
      ''introtextwedidthings''"
    using t1 ne unfolding b1 w1 by blast
  have b: "fst (extract_structured_text ?d2) =
       [\<lparr>page_number = 1, heading = ''Document Content'',
         content = ''1 Methods\<newline>2 Results''\<rparr>]"
    using t2 unfolding s2 .
  show ?thesis using a b by blast
qed

text \<open>
  C2 as stated fails: the page \<open>1 Methods / we did things\<close> has non-blank text, and the one
  block's content lacks the heading line, whitespace apart.
\<close>

theorem extract_structured_text_drops_heading_counterexample:
  "strip (concat [''1 Methods\<newline>we did things\<newline>'']) \<noteq> []
   \<and> fst (extract_structured_text [''1 Methods\<newline>we did things\<newline>'']) =
       [\<lparr>page_number = 1, heading = ''1 Methods'', content = ''we did things''\<rparr>]
   \<and> squeeze (concat (map content
        (fst (extract_structured_text [''1 Methods\<newline>we did things\<newline>'']))))
       = ''wedidthings''
   \<and> squeeze (concat [''1 Methods\<newline>we did things\<newline>'']) = ''1Methodswedidthings''
   \<and> squeeze (concat (map content
        (fst (extract_structured_text [''1 Methods\<newline>we did things\<newline>'']))))
       \<noteq> squeeze (concat [''1 Methods\<newline>we did things\<newline>''])"
  by code_simp

lemma fold_scan_line_plain:
  "\<forall>l \<in> set ls. \<not> heading_match (strip l) \<Longrightarrow>
   fold (scan_line p) ls (st, h, buf) =
     (st, h, buf @ concat (map (\<lambda>l. l @ [CHR 0x0A]) (filter (\<lambda>l. strip l \<noteq> []) ls)))"
  by (induction ls arbitrary: buf) (simp_all add: Let_def)

lemma scan_page_plain:
  "\<forall>l \<in> set (split_nl page). \<not> heading_match (strip l) \<Longrightarrow>
   scan_page p page (st, h) = (flush_buffer p h (page_buffer page) st, h)"
  by (simp add: fold_scan_line_plain page_buffer_def)

lemma scan_pages_plain:
  "no_heading_line doc \<Longrightarrow>
   scan_pages n doc (st, DEFAULT_HEADING) = (st @ blocks_by_page n doc, DEFAULT_HEADING)"
proof (induction doc arbitrary: n st)
  case Nil
  then show ?case by simp
next
  case (Cons page rest)
  then have here: "\<forall>l \<in> set (split_nl page). \<not> heading_match (strip l)"
    and later: "no_heading_line rest"
    by (simp_all add: no_heading_line_def list_all_iff)
  show ?case
    using Cons.IH [OF later]
    by (simp add: scan_page_plain [OF here] flush_buffer_def DEFAULT_HEADING_def
          del: scan_page.simps)
qed

text \<open>
  C8, as amended. For a document whose extracted text is not blank and in which no line
  matches the heading pattern, the segmenter returns one block for each page that has a
  non-blank line, in page order, each under the default heading \<open>Introduction\<close> with the
  page's number and the page's non-blank lines, trimmed, as content; the list is not empty,
  so the outcome is a valid one.
\<close>

theorem extract_structured_text_without_headings:
  assumes plain: "no_heading_line doc" and nonempty: "strip (concat doc) \<noteq> []"
  shows "extract_structured_text doc = (blocks_by_page 0 doc, length doc)
       \<and> fst (extract_structured_text doc) \<noteq> []
       \<and> (\<forall>b \<in> set (fst (extract_structured_text doc)). heading b = ''Introduction'')"
proof -
  have run: "scan_pages 0 doc ([], DEFAULT_HEADING) = (blocks_by_page 0 doc, DEFAULT_HEADING)"
    using scan_pages_plain [OF plain, of 0 "[]"] by simp
  have "squeeze (concat (map content (blocks_by_page 0 doc))) = squeeze (concat (body_lines doc))"
    using scan_pages_squeeze [OF run] by simp
  also have "\<dots> = squeeze (concat doc)"
    using plain by (simp add: body_lines_all squeeze_doc)
  finally have "squeeze (concat (map content (blocks_by_page 0 doc))) \<noteq> []"
    using nonempty by (simp add: strip_empty_iff)
  then have blocks: "blocks_by_page 0 doc \<noteq> []" by auto
  have doc: "doc \<noteq> []" using nonempty by (auto simp: strip_def)
  have ex: "extract_structured_text doc = (blocks_by_page 0 doc, length doc)"
    using nonempty doc blocks by (simp add: extract_structured_text_def Let_def run)
  have hd: "heading b = ''Introduction''" if "b \<in> set (blocks_by_page n doc)" for b n
    using that by (induction doc arbitrary: n) (auto split: if_splits)
  show ?thesis using ex blocks hd by simp
qed

text \<open>
  C8, amended, at three pages of which the second is blank.
\<close>

theorem extract_structured_text_without_headings_witness:
  "extract_structured_text [''hello\<newline>'', ''   \<newline>'', ''wide\<newline>\<newline>world\<newline>''] =
     ([\<lparr>page_number = 1, heading = ''Introduction'', content = ''hello''\<rparr>,
       \<lparr>page_number = 3, heading = ''Introduction'', content = ''wide\<newline>world''\<rparr>], 3)"
proof -
  let ?doc = "[''hello\<newline>'', ''   \<newline>'', ''wide\<newline>\<newline>world\<newline>'']"
  have plain: "no_heading_line ?doc" by code_simp
  have nonempty: "strip (concat ?doc) \<noteq> []" by code_simp
  have v: "blocks_by_page 0 ?doc =
      [\<lparr>page_number = 1, heading = ''Introduction'', content = ''hello''\<rparr>,
       \<lparr>page_number = 3, heading = ''Introduction'', content = ''wide\<newline>world''\<rparr>]"
    by code_simp
  have l: "length ?doc = 3" by simp
  from extract_structured_text_without_headings [OF plain nonempty, THEN conjunct1]
  show ?thesis unfolding v l .
qed

text \<open>
  C8 as stated fails: two pages without headings give two blocks under \<open>Introduction\<close>,
  not one block with all the text.
\<close>

theorem extract_structured_text_single_block_counterexample:
  "no_heading_line [''hello\<newline>'', ''world\<newline>'']
   \<and> strip (concat [''hello\<newline>'', ''world\<newline>'']) \<noteq> []
   \<and> fst (extract_structured_text [''hello\<newline>'', ''world\<newline>'']) =
       [\<lparr>page_number = 1, heading = ''Introduction'', content = ''hello''\<rparr>,
        \<lparr>page_number = 2, heading = ''Introduction'', content = ''world''\<rparr>]
   \<and> length (fst (extract_structured_text [''hello\<newline>'', ''world\<newline>''])) \<noteq> 1
   \<and> fst (extract_structured_text [''hello\<newline>'', ''world\<newline>'']) \<noteq>
       single_synthetic_block [''hello\<newline>'', ''world\<newline>'']"
  by code_simp

section \<open>Verification: validation of the ingested document\<close>

lemma mapE_lookup_Some:
  "\<forall>x \<in> set xs. f x \<noteq> None \<Longrightarrow> mapE (\<lambda>x. lookup k (f x)) xs = Inr (map (\<lambda>x. the (f x)) xs)"
  by (induction xs) (auto simp: lookup_def)

lemma chunks_of_block_text:
  "c \<in> set (chunks_of_block b ts) \<Longrightarrow> c_text c \<noteq> None"
  by (auto simp: chunks_of_block_def new_chunk_def)

lemma create_metadata_chunks_text:
  "create_metadata_chunks bs sp = Inr cs \<Longrightarrow> c \<in> set cs \<Longrightarrow> c_text c \<noteq> None"
proof (induction bs arbitrary: cs)
  case Nil
  then show ?case by simp
next
  case (Cons b bs)
  then show ?case
    by (auto split: if_splits sum.splits dest: chunks_of_block_text)
qed

lemma extract_nonempty_pages:
  "extract_structured_text doc = (st, n) \<Longrightarrow> st \<noteq> [] \<Longrightarrow> n \<noteq> 0"
  by (auto simp: extract_structured_text_def Let_def split: if_splits)

text \<open>
  C9. Given non-empty structured text and a non-empty list of chunks (each with its text),
  \<open>validate_pdf_content\<close> accepts exactly when some chunk's trimmed text is longer than
  10 characters; and when these are the blocks and chunks that \<open>process_pdf\<close> computes
  for a document, \<open>process_pdf\<close> returns the results in that case and otherwise returns
  \<open>False\<close> with the error "PDF content appears to be too short or fragmented", and no
  results.
\<close>

theorem validate_pdf_content_accepts_iff:
  assumes "structured_text \<noteq> []" and "chunks \<noteq> []"
    and "\<forall>c \<in> set chunks. c_text c \<noteq> None"
  shows "validate_pdf_content structured_text chunks =
           Inr (if \<exists>c \<in> set chunks. 10 < length (strip (the (c_text c)))
                then (True, ''Successfully processed PDF with '' @ show_nat (length chunks) @ '' chunks'')
                else (False, ''PDF content appears to be too short or fragmented''))
       \<and> (extract_structured_text doc = (structured_text, total_pages) \<and>
          create_metadata_chunks structured_text text_splitter = Inr chunks \<longrightarrow>
          process_pdf text_splitter (Inr doc) =
            (if \<exists>c \<in> set chunks. 10 < length (strip (the (c_text c)))
             then (True, Results \<lparr>res_structured_text = structured_text, res_chunks = chunks,
                     res_total_pages = total_pages, res_total_chunks = length chunks,
                     res_message = ''Successfully processed PDF with '' @ show_nat (length chunks) @ '' chunks''\<rparr>)
             else (False, Error_dict ''PDF content appears to be too short or fragmented'')))"
proof -
  have texts: "mapE (\<lambda>c. lookup ''text'' (c_text c)) chunks = Inr (map (\<lambda>c. the (c_text c)) chunks)"
    using assms(3) by (rule mapE_lookup_Some)
  have none: "(filter meaningful (map (\<lambda>c. the (c_text c)) chunks) = []) =
      (\<not> (\<exists>c \<in> set chunks. 10 < length (strip (the (c_text c)))))"
    by (auto simp: filter_empty_conv meaningful_def)
  have v: "validate_pdf_content structured_text chunks =
           Inr (if \<exists>c \<in> set chunks. 10 < length (strip (the (c_text c)))
                then (True, ''Successfully processed PDF with '' @ show_nat (length chunks) @ '' chunks'')
                else (False, ''PDF content appears to be too short or fragmented''))"
    unfolding validate_pdf_content_def using assms(1,2) by (simp add: texts none)
  have p: "process_pdf text_splitter (Inr doc) =
            (if \<exists>c \<in> set chunks. 10 < length (strip (the (c_text c)))
             then (True, Results \<lparr>res_structured_text = structured_text, res_chunks = chunks,
                     res_total_pages = total_pages, res_total_chunks = length chunks,
                     res_message = ''Successfully processed PDF with '' @ show_nat (length chunks) @ '' chunks''\<rparr>)
             else (False, Error_dict ''PDF content appears to be too short or fragmented''))"
    if e: "extract_structured_text doc = (structured_text, total_pages)"
      and c: "create_metadata_chunks structured_text text_splitter = Inr chunks"
  proof -
    have "total_pages \<noteq> 0" using e assms(1) by (rule extract_nonempty_pages)
    then show ?thesis
      unfolding process_pdf_def using assms(1) by (simp add: e c v)
  qed
  show ?thesis using v p by blast
qed

theorem validate_pdf_content_accepts_iff_witness:
  "process_pdf (\<lambda>s. Inr [s]) (Inr [''A first page of text'', ''short'']) =
     (True, Results \<lparr>res_structured_text =
         [\<lparr>page_number = 1, heading = ''Introduction'', content = ''A first page of text''\<rparr>,
          \<lparr>page_number = 2, heading = ''Introduction'', content = ''short''\<rparr>],
       res_chunks = [new_chunk ''A first page of text'' 1 ''Introduction'',
                     new_chunk ''short'' 2 ''Introduction''],
       res_total_pages = 2, res_total_chunks = 2,
       res_message = ''Successfully processed PDF with 2 chunks''\<rparr>)
   \<and> process_pdf (\<lambda>s. Inr [s]) (Inr [''tiny'', ''short'']) =
     (False, Error_dict ''PDF content appears to be too short or fragmented'')"
proof -
  let ?sp = "\<lambda>s. Inr [s] :: exn + string list"
  let ?st1 = "[\<lparr>page_number = 1, heading = ''Introduction'', content = ''A first page of text''\<rparr>,
          \<lparr>page_number = 2, heading = ''Introduction'', content = ''short''\<rparr>]"
  let ?cs1 = "[new_chunk ''A first page of text'' 1 ''Introduction'',
                     new_chunk ''short'' 2 ''Introduction'']"
  let ?st2 = "[\<lparr>page_number = 1, heading = ''Introduction'', content = ''tiny''\<rparr>,
          \<lparr>page_number = 2, heading = ''Introduction'', content = ''short''\<rparr>]"
  let ?cs2 = "[new_chunk ''tiny'' 1 ''Introduction'',
                     new_chunk ''short'' 2 ''Introduction'']"
  have e1: "extract_structured_text [''A first page of text'', ''short''] = (?st1, 2)"
    by code_simp
  have c1: "create_metadata_chunks ?st1 ?sp = Inr ?cs1"
    by code_simp
  have e2: "extract_structured_text [''tiny'', ''short''] = (?st2, 2)"
    by code_simp
  have c2: "create_metadata_chunks ?st2 ?sp = Inr ?cs2"
    by code_simp
  have s1: "strip ''A first page of text'' = ''A first page of text''" by code_simp
  have s2: "strip ''short'' = ''short''" by code_simp
  have s3: "strip ''tiny'' = ''tiny''" by code_simp
  have n2: "show_nat (Suc (Suc 0)) = ''2''" by code_simp
  have h1: "?st1 \<noteq> []" "?cs1 \<noteq> []" "\<forall>c \<in> set ?cs1. c_text c \<noteq> None"
    by (simp_all add: new_chunk_def)
  have h2: "?st2 \<noteq> []" "?cs2 \<noteq> []" "\<forall>c \<in> set ?cs2. c_text c \<noteq> None"
    by (simp_all add: new_chunk_def)
  have m1: "\<exists>c \<in> set ?cs1. 10 < length (strip (the (c_text c)))"
    by (simp add: new_chunk_def s1)
  have m2: "\<not> (\<exists>c \<in> set ?cs2. 10 < length (strip (the (c_text c))))"
    by (simp add: new_chunk_def s2 s3)
  note t1 = validate_pdf_content_accepts_iff [OF h1, THEN conjunct2, rule_format, OF conjI [OF e1 c1]]
  note t2 = validate_pdf_content_accepts_iff [OF h2, THEN conjunct2, rule_format, OF conjI [OF e2 c2]]
  have r1: "process_pdf ?sp (Inr [''A first page of text'', ''short'']) =
      (True, Results \<lparr>res_structured_text = ?st1, res_chunks = ?cs1, res_total_pages = 2,
         res_total_chunks = length ?cs1,
         res_message = ''Successfully processed PDF with '' @ show_nat (length ?cs1) @ '' chunks''\<rparr>)"
    using t1 m1 by (simp only: if_True)
  have r2: "process_pdf ?sp (Inr [''tiny'', ''short'']) =
      (False, Error_dict ''PDF content appears to be too short or fragmented'')"
    using t2 m2 by (simp only: if_False)
  show ?thesis
    unfolding r1 r2 by (simp add: n2)
qed

section \<open>Verification: structural search\<close>

lemma heap_emit [simp]: "heap (emit ev w) = heap w"
  by (simp add: emit_def)

lemma trace_emit [simp]: "trace (emit ev w) = trace w @ [ev]"
  by (simp add: emit_def)

lemma fold_heading_step:
  "fold (heading_step q chunks) hs (acc, w) =
     (acc @ concat (map (\<lambda>h. filter (\<lambda>r. c_heading (heap w r) = Some h) chunks)
                        (filter (direct_hit q) hs)),
      w\<lparr>trace := trace w @ map (\<lambda>h. Notify (Direct_hit h)) (filter (direct_hit q) hs)\<rparr>)"
proof (induction hs arbitrary: acc w)
  case Nil
  then show ?case by simp
next
  case (Cons h hs)
  show ?case
    by (simp add: Cons.IH emit_def)
qed

lemma structural_search_trace:
  "filter uses_vector_index (trace (snd (structural_search query chunks w))) =
   filter uses_vector_index (trace w)"
  unfolding structural_search_def
  by (auto simp: Let_def fold_heading_step uses_vector_index_def filter_map comp_def split: sum.splits)

lemma structural_search_heap:
  "heap (snd (structural_search query chunks w)) = heap w"
  unfolding structural_search_def
  by (auto simp: Let_def fold_heading_step split: sum.splits)

lemma group_filter:
  assumes "distinct ks"
  shows "filter (\<lambda>x. g x = Some k) (concat (map (\<lambda>h. filter (\<lambda>x. g x = Some h) xs) ks)) =
         (if k \<in> set ks then filter (\<lambda>x. g x = Some k) xs else [])"
  using assms
proof (induction ks)
  case Nil
  then show ?case by simp
next
  case (Cons h ks)
  have same: "filter (\<lambda>x. g x = Some k) (filter (\<lambda>x. g x = Some h) xs) =
              (if k = h then filter (\<lambda>x. g x = Some k) xs else [])"
    by (induction xs) auto
  from Cons show ?case
    by (auto simp: same simp del: filter_filter)
qed

lemma group_mset_step:
  "h \<notin> set ks \<Longrightarrow>
   mset (filter (\<lambda>x. g x = Some h) xs) + mset (filter (\<lambda>x. g x \<in> Some ` set ks) xs) =
   mset (filter (\<lambda>x. g x \<in> Some ` set (h # ks)) xs)"
  by (induction xs) auto

lemma group_mset:
  "distinct ks \<Longrightarrow>
   mset (concat (map (\<lambda>h. filter (\<lambda>x. g x = Some h) xs) ks)) =
   mset (filter (\<lambda>x. g x \<in> Some ` set ks) xs)"
proof (induction ks)
  case Nil
  then show ?case by simp
next
  case (Cons h ks)
  then have "h \<notin> set ks" and "distinct ks" by simp_all
  then show ?case
    using Cons.IH group_mset_step [of h ks g xs] by simp
qed

lemma group_sorted:
  fixes f :: "'k \<Rightarrow> 'o::linorder"
  assumes "sorted (map f ks)"
  shows "sorted (map (\<lambda>x. f (the (g x))) (concat (map (\<lambda>h. filter (\<lambda>x. g x = Some h) xs) ks)))"
  using assms
proof (induction ks)
  case Nil
  then show ?case by simp
next
  case (Cons h ks)
  then have tail: "sorted (map (\<lambda>x. f (the (g x))) (concat (map (\<lambda>h. filter (\<lambda>x. g x = Some h) xs) ks)))"
    and le: "\<forall>k \<in> set ks. f h \<le> f k"
    by simp_all
  have head: "sorted (map (\<lambda>x. f (the (g x))) (filter (\<lambda>x. g x = Some h) xs))"
    by (induction xs) auto
  show ?case
    using tail head le by (auto simp: sorted_append)
qed

lemma heading_key_inj: "heading_key a = heading_key b \<longleftrightarrow> a = b"
  by (auto simp: heading_key_def)

lemma structural_search_is_stable_sort:
  assumes wf: "\<forall>r \<in> set chunks. c_heading (heap w r) \<noteq> None"
  shows "structural_search query chunks w =
     (Inr (sort_key (\<lambda>r. heading_key (the (c_heading (heap w r))))
             (filter (\<lambda>r. direct_hit query (the (c_heading (heap w r)))) chunks)),
      w\<lparr>trace := trace w @ map (\<lambda>h. Notify (Direct_hit h))
          (filter (direct_hit query)
             (sort_key heading_key (remdups (map (\<lambda>r. the (c_heading (heap w r))) chunks))))\<rparr>)"
proof -
  let ?g = "\<lambda>r. c_heading (heap w r)"
  let ?hs = "map (\<lambda>r. the (?g r)) chunks"
  let ?ks = "filter (direct_hit query) (sort_key heading_key (remdups ?hs))"
  let ?res = "concat (map (\<lambda>h. filter (\<lambda>r. ?g r = Some h) chunks) ?ks)"
  let ?key = "\<lambda>r. heading_key (the (?g r))"
  let ?hit = "\<lambda>r. direct_hit query (the (?g r))"
  have hs: "mapE (\<lambda>r. lookup ''heading'' (?g r)) chunks = Inr ?hs"
    using wf by (rule mapE_lookup_Some)
  have run: "structural_search query chunks w =
      (Inr ?res, w\<lparr>trace := trace w @ map (\<lambda>h. Notify (Direct_hit h)) ?ks\<rparr>)"
    unfolding structural_search_def by (simp add: hs fold_heading_step Let_def)
  have dist: "distinct ?ks" by simp
  have srt: "sorted (map heading_key ?ks)"
    by (rule sorted_filter) simp
  have setks: "set ?ks = {h \<in> set ?hs. direct_hit query h}" by auto
  have memb: "(?g r \<in> Some ` set ?ks) = ?hit r" if "r \<in> set chunks" for r
  proof -
    from that wf obtain h where h: "?g r = Some h" by auto
    with that have "h \<in> set ?hs" by force
    with h show ?thesis by (auto simp: setks)
  qed
  have m: "mset ?res = mset (filter ?hit chunks)"
  proof -
    have "mset ?res = mset (filter (\<lambda>r. ?g r \<in> Some ` set ?ks) chunks)"
      using dist by (rule group_mset)
    also have "filter (\<lambda>r. ?g r \<in> Some ` set ?ks) chunks = filter ?hit chunks"
      by (rule filter_cong [OF refl]) (rule memb)
    finally show ?thesis .
  qed
  have s: "sorted (map ?key ?res)"
    using srt by (rule group_sorted)
  have st: "filter (\<lambda>x. ?key k = ?key x) ?res = filter (\<lambda>x. ?key k = ?key x) (filter ?hit chunks)"
    if k: "k \<in> set ?res" for k
  proof -
    from k have "k \<in># mset ?res" by simp
    then have kin: "k \<in> set chunks" and khit: "?hit k" by (simp_all add: m)
    from kin wf obtain h where h: "?g k = Some h" by auto
    have hks: "h \<in> set ?ks" using memb [OF kin] khit h by auto
    have sub: "set ?res \<subseteq> set chunks"
      using m by (metis filter_is_subset set_mset_mset)
    have eq1: "filter (\<lambda>x. ?key k = ?key x) ?res = filter (\<lambda>x. ?g x = Some h) ?res"
    proof (rule filter_cong [OF refl])
      fix x assume "x \<in> set ?res"
      with sub wf obtain h' where "?g x = Some h'" by auto
      then show "(?key k = ?key x) = (?g x = Some h)"
        using h by (auto simp: heading_key_inj)
    qed
    have eq2: "filter (\<lambda>x. ?key k = ?key x) (filter ?hit chunks) = filter (\<lambda>x. ?g x = Some h) chunks"
      unfolding filter_filter
    proof (rule filter_cong [OF refl])
      fix x assume "x \<in> set chunks"
      with wf obtain h' where h': "?g x = Some h'" by auto
      show "(?hit x \<and> ?key k = ?key x) = (?g x = Some h)"
        using h h' khit by (auto simp: heading_key_inj)
    qed
    show ?thesis
      unfolding eq1 eq2 using group_filter [OF dist, of ?g h chunks] hks by simp
  qed
  have "sort_key ?key (filter ?hit chunks) = ?res"
    using m st s by (rule properties_for_sort_key)
  then show ?thesis using run by simp
qed

text \<open>
  C3, as amended. For chunks that all carry a heading, \<open>structural_search\<close> returns exactly
  the chunks whose heading, numbering stripped and lower-cased, occurs in the lower-cased
  query, stably sorted by the key (length of the heading, heading): the hit headings come
  in the order of that key and the chunks of one heading keep their chunk order. No chunk
  is written to, and when no heading hits the result is empty.
\<close>

theorem structural_search_hits_sorted_by_heading_key:
  assumes "\<forall>r \<in> set chunks. c_heading (heap w r) \<noteq> None"
  shows "fst (structural_search query chunks w) =
           Inr (sort_key (\<lambda>r. heading_key (the (c_heading (heap w r))))
                  (filter (\<lambda>r. direct_hit query (the (c_heading (heap w r)))) chunks))
       \<and> heap (snd (structural_search query chunks w)) = heap w
       \<and> ((\<forall>r \<in> set chunks. \<not> direct_hit query (the (c_heading (heap w r)))) \<longrightarrow>
            fst (structural_search query chunks w) = Inr [])"
proof -
  have run: "fst (structural_search query chunks w) =
           Inr (sort_key (\<lambda>r. heading_key (the (c_heading (heap w r))))
                  (filter (\<lambda>r. direct_hit query (the (c_heading (heap w r)))) chunks))"
    using structural_search_is_stable_sort [OF assms, of query] by simp
  have none: "filter (\<lambda>r. direct_hit query (the (c_heading (heap w r)))) chunks = []"
    if "\<forall>r \<in> set chunks. \<not> direct_hit query (the (c_heading (heap w r)))"
    using that by (simp add: filter_empty_conv)
  show ?thesis
    using run none by (simp add: structural_search_heap)
qed

text \<open>
  C3, amended, on the sample store: \<open>Intro\<close> is shorter than \<open>2 Results\<close>, so its chunks
  come first.
\<close>

theorem structural_search_hits_sorted_by_heading_key_witness:
  "fst (structural_search ''intro and results'' [0, 1, 2, 3] sample_world) = Inr [1, 3, 0, 2]"
proof -
  have wf: "\<forall>r \<in> set [0, 1, 2, 3]. c_heading (heap sample_world r) \<noteq> None"
    by (simp add: sample_world_def new_chunk_def)
  have v: "sort_key (\<lambda>r. heading_key (the (c_heading (heap sample_world r))))
             (filter (\<lambda>r. direct_hit ''intro and results'' (the (c_heading (heap sample_world r))))
                [0, 1, 2, 3]) = [1, 3, 0, 2]"
    by code_simp
  show ?thesis
    using structural_search_hits_sorted_by_heading_key [OF wf, of "''intro and results''"]
    by (simp only: v)
qed

text \<open>
  C3 as stated fails on the sample store: \<open>2 Results\<close> appears first in the chunk list,
  and the chunks of \<open>Intro\<close> are returned before it.
\<close>

theorem structural_search_first_appearance_counterexample:
  "match_in_document_order ''intro and results'' [0, 1, 2, 3] sample_world = [0, 2, 1, 3]
   \<and> fst (structural_search ''intro and results'' [0, 1, 2, 3] sample_world) = Inr [1, 3, 0, 2]
   \<and> fst (structural_search ''intro and results'' [0, 1, 2, 3] sample_world) \<noteq>
       Inr (match_in_document_order ''intro and results'' [0, 1, 2, 3] sample_world)"
  by code_simp

section \<open>Verification: \<open>sorted\<close> on keys that are numbers\<close>

text \<open>
  The sort keeps the elements, and on keys without NaN it is the stable sort: the result
  is ordered by key and elements with equal keys keep their order.
\<close>

lemma mset_insert_at: "mset (insert_at xs i x) = add_mset x (mset xs)"
proof -
  have "mset (take i xs) + mset (drop i xs) = mset xs"
    by (metis append_take_drop_id mset_append)
  then show ?thesis by (simp add: insert_at_def)
qed

lemma mset_binarysort: "mset (binarysort lt front rest) = mset front + mset rest"
  by (induction rest arbitrary: front) (simp_all add: mset_insert_at)

lemma mset_listsort: "mset (listsort lt xs) = mset xs"
proof (cases "length xs < 2")
  case True
  then show ?thesis by (simp add: listsort_def)
next
  case False
  obtain n d where c: "count_run lt xs = (n, d)" by (cases "count_run lt xs")
  have "mset (take n xs) + mset (drop n xs) = mset xs"
    by (metis append_take_drop_id mset_append)
  then show ?thesis
    using False by (simp add: listsort_def c mset_binarysort)
qed

lemma mset_sorted_reverse: "mset (sorted_reverse key xs) = mset xs"
  by (simp add: sorted_reverse_def mset_listsort)

text \<open>On keys that are numbers the comparison is the order of the reals.\<close>

lemma bisect_place:
  fixes f :: "'a \<Rightarrow> real"
  assumes "sorted (map f a)" and "r \<le> length a" and "l \<le> r"
    and "\<forall>j < length a. lt x (a ! j) = (f x < f (a ! j))"
    and "\<forall>j < l. f (a ! j) \<le> f x"
    and "\<forall>j. r \<le> j \<and> j < length a \<longrightarrow> f x < f (a ! j)"
  shows "bisect lt x a l r \<le> length a
       \<and> (\<forall>j < bisect lt x a l r. f (a ! j) \<le> f x)
       \<and> (\<forall>j. bisect lt x a l r \<le> j \<and> j < length a \<longrightarrow> f x < f (a ! j))"
  using assms
proof (induction lt x a l r rule: bisect.induct)
  case (1 lt pivot a l r)
  show ?case
  proof (cases "l < r")
    case False
    have b: "bisect lt pivot a l r = l"
      using False by (subst bisect.simps) simp
    from False "1.prems"(3) have "l = r" by simp
    with "1.prems" show ?thesis unfolding b by simp
  next
    case True
    let ?p = "l + (r - l) div 2"
    have p: "l \<le> ?p" "?p < r" using True by auto
    then have plen: "?p < length a" using "1.prems"(2) by simp
    show ?thesis
    proof (cases "lt pivot (a ! ?p)")
      case lt: True
      then have less: "f pivot < f (a ! ?p)" using "1.prems"(4) plen by simp
      have above: "\<forall>j. ?p \<le> j \<and> j < length a \<longrightarrow> f pivot < f (a ! j)"
      proof (intro allI impI)
        fix j assume j: "?p \<le> j \<and> j < length a"
        then have "f (a ! ?p) \<le> f (a ! j)"
          using "1.prems"(1) by (simp add: sorted_iff_nth_mono)
        with less show "f pivot < f (a ! j)" by simp
      qed
      have "bisect lt pivot a l ?p \<le> length a
       \<and> (\<forall>j < bisect lt pivot a l ?p. f (a ! j) \<le> f pivot)
       \<and> (\<forall>j. bisect lt pivot a l ?p \<le> j \<and> j < length a \<longrightarrow> f pivot < f (a ! j))"
        using "1.IH"(1) [OF True refl lt "1.prems"(1) _ p(1) "1.prems"(4) "1.prems"(5) above] plen
        by simp
      moreover have "bisect lt pivot a l r = bisect lt pivot a l ?p"
        using True lt by (subst bisect.simps) (simp add: Let_def)
      ultimately show ?thesis by simp
    next
      case ge: False
      then have le: "f (a ! ?p) \<le> f pivot" using "1.prems"(4) plen by simp
      have below: "\<forall>j < ?p + 1. f (a ! j) \<le> f pivot"
      proof (intro allI impI)
        fix j assume j: "j < ?p + 1"
        then have "f (a ! j) \<le> f (a ! ?p)"
          using "1.prems"(1) plen by (simp add: sorted_iff_nth_mono)
        with le show "f (a ! j) \<le> f pivot" by simp
      qed
      have "bisect lt pivot a (?p + 1) r \<le> length a
       \<and> (\<forall>j < bisect lt pivot a (?p + 1) r. f (a ! j) \<le> f pivot)
       \<and> (\<forall>j. bisect lt pivot a (?p + 1) r \<le> j \<and> j < length a \<longrightarrow> f pivot < f (a ! j))"
        using "1.IH"(2) [OF True refl ge "1.prems"(1) "1.prems"(2) _ "1.prems"(4) below "1.prems"(6)] p
        by simp
      moreover have "bisect lt pivot a l r = bisect lt pivot a (?p + 1) r"
        using True ge by (subst bisect.simps) (simp add: Let_def)
      ultimately show ?thesis by simp
    qed
  qed
qed

lemma insert_at_sorted_stable:
  fixes f :: "'a \<Rightarrow> real"
  assumes srt: "sorted (map f a)" and i: "i \<le> length a"
    and below: "\<forall>j < i. f (a ! j) \<le> f x"
    and above: "\<forall>j. i \<le> j \<and> j < length a \<longrightarrow> f x < f (a ! j)"
  shows "sorted (map f (insert_at a i x))"
    and "filter (\<lambda>y. f y = c) (insert_at a i x) = filter (\<lambda>y. f y = c) (a @ [x])"
proof -
  have t: "\<forall>y \<in> set (take i a). f y \<le> f x"
    using below i by (auto simp: in_set_conv_nth)
  have d: "\<forall>y \<in> set (drop i a). f x < f y"
  proof
    fix y assume "y \<in> set (drop i a)"
    then obtain j where j: "j < length (drop i a)" "y = drop i a ! j"
      by (auto simp: in_set_conv_nth)
    then have "y = a ! (i + j)" "i + j < length a" using i by auto
    with above show "f x < f y" by simp
  qed
  have st: "sorted (map f (take i a))" and sd: "sorted (map f (drop i a))"
    using srt by (simp_all add: sorted_map sorted_wrt_take sorted_wrt_drop)
  have td: "\<forall>y \<in> set (take i a). \<forall>z \<in> set (drop i a). f y \<le> f z"
    using t d by fastforce
  show "sorted (map f (insert_at a i x))"
    using st sd t d td by (auto simp: insert_at_def sorted_append less_imp_le)
  have none: "f x = c \<Longrightarrow> filter (\<lambda>y. f y = c) (drop i a) = []"
    using d by (auto simp: filter_empty_conv)
  have split: "filter (\<lambda>y. f y = c) a =
      filter (\<lambda>y. f y = c) (take i a) @ filter (\<lambda>y. f y = c) (drop i a)"
    by (metis append_take_drop_id filter_append)
  show "filter (\<lambda>y. f y = c) (insert_at a i x) = filter (\<lambda>y. f y = c) (a @ [x])"
    using none by (auto simp: insert_at_def split)
qed

lemma binarysort_sorted_stable:
  fixes f :: "'a \<Rightarrow> real"
  assumes "sorted (map f front)"
    and "\<forall>a \<in> set front \<union> set rest. \<forall>b \<in> set front \<union> set rest. lt a b = (f a < f b)"
  shows "sorted (map f (binarysort lt front rest))
       \<and> filter (\<lambda>y. f y = c) (binarysort lt front rest) = filter (\<lambda>y. f y = c) (front @ rest)"
  using assms
proof (induction rest arbitrary: front)
  case Nil
  then show ?case by simp
next
  case (Cons x rest)
  let ?i = "bisect lt x front 0 (length front)"
  have cmp: "\<forall>j < length front. lt x (front ! j) = (f x < f (front ! j))"
    using Cons.prems(2) by simp
  have place: "?i \<le> length front \<and> (\<forall>j < ?i. f (front ! j) \<le> f x)
       \<and> (\<forall>j. ?i \<le> j \<and> j < length front \<longrightarrow> f x < f (front ! j))"
    using bisect_place [of f front "length front" 0 lt x, OF Cons.prems(1) le_refl le0 cmp]
    by simp
  have s: "sorted (map f (insert_at front ?i x))"
    and st: "filter (\<lambda>y. f y = c) (insert_at front ?i x) = filter (\<lambda>y. f y = c) (front @ [x])"
    using insert_at_sorted_stable [OF Cons.prems(1), of ?i x] place by blast+
  have sets: "set (insert_at front ?i x) \<union> set rest = set front \<union> set (x # rest)"
    using mset_insert_at [of front ?i x] by (metis Un_insert_left Un_insert_right list.simps(15) mset_eq_setD set_mset_add_mset_insert set_mset_mset)
  have cmp': "\<forall>a \<in> set (insert_at front ?i x) \<union> set rest.
      \<forall>b \<in> set (insert_at front ?i x) \<union> set rest. lt a b = (f a < f b)"
    unfolding sets using Cons.prems(2) .
  from Cons.IH [OF s cmp'] st show ?case by simp
qed

lemma run_while_ascending:
  fixes f :: "'a \<Rightarrow> real"
  assumes "\<forall>a \<in> set (prev # xs). \<forall>b \<in> set (prev # xs). lt a b = (f a < f b)"
  shows "sorted (map f (prev # take (run_while (\<lambda>p c. \<not> lt c p) prev xs) xs))"
  using assms
proof (induction xs arbitrary: prev)
  case Nil
  then show ?case by simp
next
  case (Cons x xs)
  show ?case
  proof (cases "lt x prev")
    case True
    then show ?thesis by simp
  next
    case False
    then have le: "f prev \<le> f x" using Cons.prems by simp
    have "sorted (map f (x # take (run_while (\<lambda>p c. \<not> lt c p) x xs) xs))"
      using Cons.IH [of x] Cons.prems by simp
    with le False show ?thesis by auto
  qed
qed

lemma run_while_descending:
  fixes f :: "'a \<Rightarrow> real"
  assumes "\<forall>a \<in> set (prev # xs). \<forall>b \<in> set (prev # xs). lt a b = (f a < f b)"
  shows "sorted_wrt (\<lambda>a b. f b < f a) (prev # take (run_while (\<lambda>p c. lt c p) prev xs) xs)"
  using assms
proof (induction xs arbitrary: prev)
  case Nil
  then show ?case by simp
next
  case (Cons x xs)
  show ?case
  proof (cases "lt x prev")
    case False
    then show ?thesis by simp
  next
    case True
    then have less: "f x < f prev" using Cons.prems by simp
    have "sorted_wrt (\<lambda>a b. f b < f a) (x # take (run_while (\<lambda>p c. lt c p) x xs) xs)"
      using Cons.IH [of x] Cons.prems by simp
    with less True show ?thesis by auto
  qed
qed

lemma filter_single_key:
  fixes f :: "'a \<Rightarrow> real"
  assumes "sorted_wrt (\<lambda>a b. f b < f a) xs"
  shows "filter (\<lambda>y. f y = c) (rev xs) = filter (\<lambda>y. f y = c) xs"
proof -
  have short: "length (filter (\<lambda>y. f y = c) xs) \<le> 1"
    using assms
  proof (induction xs)
    case Nil
    then show ?case by simp
  next
    case (Cons x xs)
    then have "f x = c \<Longrightarrow> filter (\<lambda>y. f y = c) xs = []"
      by (auto simp: filter_empty_conv)
    with Cons show ?case by auto
  qed
  have "rev ys = ys" if "length ys \<le> 1" for ys :: "'a list"
    using that by (cases ys) auto
  with short have "rev (filter (\<lambda>y. f y = c) xs) = filter (\<lambda>y. f y = c) xs"
    by blast
  then show ?thesis by (simp only: rev_filter)
qed

lemma listsort_sorted_stable:
  fixes f :: "'a \<Rightarrow> real"
  assumes cmp: "\<forall>a \<in> set xs. \<forall>b \<in> set xs. lt a b = (f a < f b)"
  shows "sorted (map f (listsort lt xs))
       \<and> filter (\<lambda>y. f y = c) (listsort lt xs) = filter (\<lambda>y. f y = c) xs"
proof (cases xs)
  case Nil
  then show ?thesis by (simp add: listsort_def)
next
  case (Cons x ys)
  show ?thesis
  proof (cases ys)
    case Nil
    with Cons show ?thesis by (simp add: listsort_def)
  next
    case ys: (Cons y rest)
    have xs: "xs = x # y # rest" using Cons ys by simp
    obtain n d where c: "count_run lt xs = (n, d)" by (cases "count_run lt xs")
    let ?front = "if d then rev (take n xs) else take n xs"
    have long: "\<not> length xs < 2" using xs by simp
    have run: "listsort lt xs = binarysort lt ?front (drop n xs)"
      unfolding listsort_def c using long by simp
    have cmp_y: "\<forall>a \<in> set (y # rest). \<forall>b \<in> set (y # rest). lt a b = (f a < f b)"
      using cmp xs by simp
    have front: "sorted (map f ?front) \<and> filter (\<lambda>y. f y = c) ?front = filter (\<lambda>y. f y = c) (take n xs)"
    proof (cases "lt y x")
      case True
      then have less: "f y < f x" using cmp xs by simp
      from True c xs have d: "d" and n: "n = 2 + run_while (\<lambda>p c. lt c p) y rest" by auto
      have "sorted_wrt (\<lambda>a b. f b < f a) (y # take (run_while (\<lambda>p c. lt c p) y rest) rest)"
        using cmp_y by (rule run_while_descending)
      with less have desc: "sorted_wrt (\<lambda>a b. f b < f a) (take n xs)"
        unfolding n xs by auto
      then have "sorted_wrt (\<lambda>a b. f a < f b) (rev (take n xs))"
        by (simp add: sorted_wrt_rev)
      then have "sorted_wrt (\<lambda>a b. f a \<le> f b) (rev (take n xs))"
        by (rule sorted_wrt_mono_rel [rotated]) simp
      then have "sorted (map f (rev (take n xs)))"
        by (simp add: sorted_map)
      with d filter_single_key [OF desc] show ?thesis by simp
    next
      case False
      then have le: "f x \<le> f y" using cmp xs by simp
      from False c xs have d: "\<not> d" and n: "n = 2 + run_while (\<lambda>p c. \<not> lt c p) y rest" by auto
      have "sorted (map f (y # take (run_while (\<lambda>p c. \<not> lt c p) y rest) rest))"
        using cmp_y by (rule run_while_ascending)
      with le have "sorted (map f (take n xs))"
        unfolding n xs by auto
      with d show ?thesis by simp
    qed
    have td: "set (take n xs) \<union> set (drop n xs) = set xs"
      by (simp only: set_append [symmetric] append_take_drop_id)
    have sets: "set ?front \<union> set (drop n xs) = set xs"
      using td by (cases d) simp_all
    have cmp': "\<forall>a \<in> set ?front \<union> set (drop n xs). \<forall>b \<in> set ?front \<union> set (drop n xs).
        lt a b = (f a < f b)"
      unfolding sets using cmp .
    have "filter (\<lambda>y. f y = c) (take n xs) @ filter (\<lambda>y. f y = c) (drop n xs) =
        filter (\<lambda>y. f y = c) (take n xs @ drop n xs)"
      by (simp only: filter_append)
    then have split: "filter (\<lambda>y. f y = c) (take n xs) @ filter (\<lambda>y. f y = c) (drop n xs) =
        filter (\<lambda>y. f y = c) xs"
      by (simp only: append_take_drop_id)
    note bs = binarysort_sorted_stable [OF front [THEN conjunct1] cmp', of c]
    have s1: "sorted (map f (listsort lt xs))"
      unfolding run using bs by (rule conjunct1)
    have "filter (\<lambda>y. f y = c) (listsort lt xs) =
        filter (\<lambda>y. f y = c) ?front @ filter (\<lambda>y. f y = c) (drop n xs)"
      unfolding run using bs [THEN conjunct2] by (simp only: filter_append)
    also have "\<dots> = filter (\<lambda>y. f y = c) (take n xs) @ filter (\<lambda>y. f y = c) (drop n xs)"
      using front [THEN conjunct2] by (simp only:)
    also have "\<dots> = filter (\<lambda>y. f y = c) xs" by (rule split)
    finally show ?thesis using s1 by blast
  qed
qed

lemma listsort_is_sort_key:
  fixes f :: "'a \<Rightarrow> real"
  assumes cmp: "\<forall>a \<in> set xs. \<forall>b \<in> set xs. lt a b = (f a < f b)"
  shows "listsort lt xs = sort_key f xs"
proof (rule properties_for_sort_key [symmetric])
  show "mset (listsort lt xs) = mset xs" by (rule mset_listsort)
  show "sorted (map f (listsort lt xs))"
    using listsort_sorted_stable [OF cmp] by blast
  fix k
  have "(\<lambda>x. f k = f x) = (\<lambda>y. f y = f k)" by auto
  then show "filter (\<lambda>x. f k = f x) (listsort lt xs) = filter (\<lambda>x. f k = f x) xs"
    using listsort_sorted_stable [OF cmp, of "f k"] by simp
qed

lemma flt_numbers: "a \<noteq> NaN \<Longrightarrow> b \<noteq> NaN \<Longrightarrow> flt a b = (num_of a < num_of b)"
  by (cases a; cases b) simp_all

lemma sorted_reverse_numbers:
  assumes "\<forall>x \<in> set xs. key x \<noteq> NaN"
  shows "sorted_reverse key xs = rev (sort_key (\<lambda>x. num_of (key x)) (rev xs))"
proof -
  have "\<forall>a \<in> set (rev xs). \<forall>b \<in> set (rev xs).
      flt (key a) (key b) = (num_of (key a) < num_of (key b))"
    using assms by (simp add: flt_numbers)
  then show ?thesis
    unfolding sorted_reverse_def by (simp only: listsort_is_sort_key)
qed

section \<open>Verification: re-ranking\<close>

lemma write_scores_trace [simp]: "trace (snd (write_scores rs scores i w)) = trace w"
  by (induction rs arbitrary: i w) (simp_all split: sum.splits)

lemma write_scores_frame:
  "a \<notin> set rs \<Longrightarrow> heap (snd (write_scores rs scores i w)) a = heap w a"
  by (induction rs arbitrary: i w) (simp_all split: sum.splits)

lemma write_scores_enough:
  "i + length rs \<le> length scores \<Longrightarrow> fst (write_scores rs scores i w) = None"
  by (induction rs arbitrary: i w) (simp_all add: np_index_def)

lemma write_scores_written:
  "i + length rs \<le> length scores \<Longrightarrow> r \<in> set rs \<Longrightarrow>
   \<exists>j. i \<le> j \<and> j < i + length rs \<and>
       rerank_score (heap (snd (write_scores rs scores i w)) r) = Some (scores ! j)"
proof (induction rs arbitrary: i w)
  case Nil
  then show ?case by simp
next
  case (Cons r' rs)
  let ?w = "w\<lparr>heap := (heap w)(r' := (heap w r')\<lparr>rerank_score := Some (scores ! i)\<rparr>)\<rparr>"
  have step: "write_scores (r' # rs) scores i w = write_scores rs scores (Suc i) ?w"
    using Cons.prems(1) by (simp add: np_index_def)
  show ?case
  proof (cases "r \<in> set rs")
    case True
    from Cons.IH [OF _ True, of "Suc i" ?w] Cons.prems(1)
    obtain j where "Suc i \<le> j" "j < Suc i + length rs"
      "rerank_score (heap (snd (write_scores rs scores (Suc i) ?w)) r) = Some (scores ! j)"
      by auto
    then show ?thesis unfolding step by (intro exI [of _ j]) simp
  next
    case False
    with Cons.prems(2) have r: "r = r'" by simp
    have "heap (snd (write_scores rs scores (Suc i) ?w)) r = heap ?w r"
      using False by (rule write_scores_frame)
    then show ?thesis unfolding step by (intro exI [of _ i]) (simp add: r)
  qed
qed

lemma write_scores_distinct:
  "i + length rs \<le> length scores \<Longrightarrow> distinct rs \<Longrightarrow>
   map (score_of (snd (write_scores rs scores i w))) rs = take (length rs) (drop i scores)"
proof (induction rs arbitrary: i w)
  case Nil
  then show ?case by simp
next
  case (Cons r rs)
  let ?w = "w\<lparr>heap := (heap w)(r := (heap w r)\<lparr>rerank_score := Some (scores ! i)\<rparr>)\<rparr>"
  have step: "write_scores (r # rs) scores i w = write_scores rs scores (Suc i) ?w"
    using Cons.prems(1) by (simp add: np_index_def)
  from Cons.prems have "r \<notin> set rs" by simp
  then have "heap (snd (write_scores rs scores (Suc i) ?w)) r = heap ?w r"
    by (rule write_scores_frame)
  then have here: "score_of (snd (write_scores rs scores (Suc i) ?w)) r = scores ! i"
    by (simp add: score_of_def)
  have rest: "map (score_of (snd (write_scores rs scores (Suc i) ?w))) rs =
      take (length rs) (drop (Suc i) scores)"
    using Cons.IH [of "Suc i" ?w] Cons.prems by simp
  have i: "i < length scores" using Cons.prems(1) by simp
  have "take (length (r # rs)) (drop i scores) = scores ! i # take (length rs) (drop (Suc i) scores)"
    using i by (simp add: Cons_nth_drop_Suc [symmetric])
  then show ?case unfolding step using here rest by simp
qed

lemma rerank_results_scored:
  assumes texts: "mapE (\<lambda>r. lookup ''text'' (c_text (heap w r))) chunks = Inr texts"
    and scores: "reranker (map (\<lambda>t. (query, t)) texts) = Inr scores"
    and len: "length chunks \<le> length scores"
    and False: "chunks \<noteq> []"
  shows "rerank_results query chunks reranker w =
     (let w2 = snd (write_scores chunks scores 0 (emit (Predict (map (\<lambda>t. (query, t)) texts)) w))
      in (sorted_reverse (score_of w2) chunks, w2))"
proof -
  let ?w1 = "emit (Predict (map (\<lambda>t. (query, t)) texts)) w"
  obtain x w2 where ws: "write_scores chunks scores 0 ?w1 = (x, w2)"
    by (cases "write_scores chunks scores 0 ?w1")
  have x: "x = None"
    using write_scores_enough [of 0 chunks scores ?w1] len ws by simp
  have "\<forall>r \<in> set chunks. rerank_score (heap w2 r) \<noteq> None"
  proof
    fix r assume "r \<in> set chunks"
    from write_scores_written [of 0 chunks scores r ?w1, OF _ this] len ws
    show "rerank_score (heap w2 r) \<noteq> None" by auto
  qed
  then have keys: "mapE (\<lambda>r. lookup ''rerank_score'' (rerank_score (heap w2 r))) chunks =
      Inr (map (\<lambda>r. the (rerank_score (heap w2 r))) chunks)"
    by (rule mapE_lookup_Some)
  show ?thesis
    unfolding rerank_results_def using False
    by (simp add: texts scores Let_def ws x keys)
qed

lemma rerank_results_mset:
  "mset (fst (rerank_results query chunks reranker w)) = mset chunks"
  unfolding rerank_results_def rerank_except_def
  by (auto simp: Let_def mset_sorted_reverse split: sum.splits prod.splits option.splits)

lemma rerank_results_trace:
  "filter uses_vector_index (trace (snd (rerank_results query chunks reranker w))) =
   filter uses_vector_index (trace w)"
proof -
  have ws: "trace w2 = trace w1" if "write_scores rs scores i w1 = (x, w2)" for rs scores i w1 x w2
    using write_scores_trace [of rs scores i w1] that by simp
  show ?thesis
    unfolding rerank_results_def rerank_except_def
    by (auto simp: Let_def uses_vector_index_def dest!: ws split: sum.splits prod.splits option.splits)
qed

lemma mapE_lookup_texts:
  "\<forall>r \<in> set chunks. c_text (heap w r) \<noteq> None \<Longrightarrow>
   mapE (\<lambda>r. lookup ''text'' (c_text (heap w r))) chunks =
     Inr (map (\<lambda>r. the (c_text (heap w r))) chunks)"
  by (rule mapE_lookup_Some)

lemma non_increasing_numbers:
  "\<forall>x \<in> set xs. x \<noteq> NaN \<Longrightarrow>
   non_increasing xs = sorted_wrt (\<lambda>a b. a \<ge> b) (map num_of xs)"
proof (induction xs)
  case Nil
  then show ?case by (simp add: non_increasing_def)
next
  case (Cons x xs)
  have "fge x y = (num_of y \<le> num_of x)" if "y \<in> set xs" for y
  proof -
    from Cons.prems that have "x \<noteq> NaN" "y \<noteq> NaN" by auto
    then show ?thesis by (cases x; cases y) simp_all
  qed
  with Cons show ?case by (simp add: non_increasing_def)
qed

text \<open>
  C5, as amended. Whatever the scorer does, the list \<open>rerank_results\<close> returns is a
  permutation of its input. When every chunk carries its text and the scorer returns at
  least one score for every candidate, none of them NaN, the rerank scores of the returned
  list are in non-increasing order, chunks with equal scores keep the order they had in the
  input, every candidate has a score, and for candidates that are distinct objects these
  are the scores the scorer returned.
\<close>

theorem rerank_results_sorted_permutation:
  assumes run: "rerank_results query chunks reranker w = (reranked_chunks, w')"
  shows "mset reranked_chunks = mset chunks
       \<and> ((\<forall>r \<in> set chunks. c_text (heap w r) \<noteq> None) \<and>
          reranker (map (\<lambda>r. (query, the (c_text (heap w r)))) chunks) = Inr scores \<and>
          length chunks \<le> length scores \<and>
          (\<forall>j < length chunks. scores ! j \<noteq> NaN) \<longrightarrow>
            non_increasing (map (score_of w') reranked_chunks)
          \<and> (\<forall>s. filter (\<lambda>r. score_of w' r = s) reranked_chunks =
                  filter (\<lambda>r. score_of w' r = s) chunks)
          \<and> (\<forall>r \<in> set chunks. \<exists>j < length chunks. rerank_score (heap w' r) = Some (scores ! j))
          \<and> (distinct chunks \<longrightarrow> map (score_of w') chunks = take (length chunks) scores))"
proof -
  have perm: "mset reranked_chunks = mset chunks"
    using rerank_results_mset [of query chunks reranker w] run by simp
  have rest: "non_increasing (map (score_of w') reranked_chunks)
          \<and> (\<forall>s. filter (\<lambda>r. score_of w' r = s) reranked_chunks =
                  filter (\<lambda>r. score_of w' r = s) chunks)
          \<and> (\<forall>r \<in> set chunks. \<exists>j < length chunks. rerank_score (heap w' r) = Some (scores ! j))
          \<and> (distinct chunks \<longrightarrow> map (score_of w') chunks = take (length chunks) scores)"
    if wf: "\<forall>r \<in> set chunks. c_text (heap w r) \<noteq> None"
      and sc: "reranker (map (\<lambda>r. (query, the (c_text (heap w r)))) chunks) = Inr scores"
      and len: "length chunks \<le> length scores"
      and numbers: "\<forall>j < length chunks. scores ! j \<noteq> NaN"
  proof (cases "chunks = []")
    case True
    with run show ?thesis by (simp add: rerank_results_def non_increasing_def)
  next
    case False
    let ?texts = "map (\<lambda>r. the (c_text (heap w r))) chunks"
    let ?w1 = "emit (Predict (map (\<lambda>t. (query, t)) ?texts)) w"
    have texts: "mapE (\<lambda>r. lookup ''text'' (c_text (heap w r))) chunks = Inr ?texts"
      using wf by (rule mapE_lookup_texts)
    have sc': "reranker (map (\<lambda>t. (query, t)) ?texts) = Inr scores"
      using sc by (simp add: comp_def)
    have "rerank_results query chunks reranker w =
        (sorted_reverse (score_of (snd (write_scores chunks scores 0 ?w1))) chunks,
         snd (write_scores chunks scores 0 ?w1))"
      using rerank_results_scored [of w chunks ?texts reranker query scores, OF texts sc' len False]
      by (simp add: Let_def)
    then have eq: "(reranked_chunks, w') =
        (sorted_reverse (score_of (snd (write_scores chunks scores 0 ?w1))) chunks,
         snd (write_scores chunks scores 0 ?w1))"
      using run by simp
    have w': "w' = snd (write_scores chunks scores 0 ?w1)"
      by (rule Pair_inject [OF eq])
    have rs0: "reranked_chunks = sorted_reverse (score_of w') chunks"
      unfolding w' by (rule Pair_inject [OF eq])
    have written: "\<forall>r \<in> set chunks. \<exists>j < length chunks. rerank_score (heap w' r) = Some (scores ! j)"
    proof
      fix r assume "r \<in> set chunks"
      from write_scores_written [of 0 chunks scores r ?w1, OF _ this] len
      show "\<exists>j < length chunks. rerank_score (heap w' r) = Some (scores ! j)"
        unfolding w' by auto
    qed
    have nn: "\<forall>r \<in> set chunks. score_of w' r \<noteq> NaN"
    proof
      fix r assume "r \<in> set chunks"
      with written obtain j where "j < length chunks" "rerank_score (heap w' r) = Some (scores ! j)"
        by blast
      with numbers show "score_of w' r \<noteq> NaN" by (simp add: score_of_def)
    qed
    let ?f = "\<lambda>r. num_of (score_of w' r)"
    have rs: "reranked_chunks = rev (sort_key ?f (rev chunks))"
      unfolding rs0 using nn by (rule sorted_reverse_numbers)
    have set_rs: "set reranked_chunks = set chunks"
      using perm by (rule mset_eq_setD)
    have srt: "non_increasing (map (score_of w') reranked_chunks)"
    proof -
      have "sorted (map ?f (sort_key ?f (rev chunks)))"
        by simp
      then have "sorted_wrt (\<lambda>a b. a \<ge> b) (rev (map ?f (sort_key ?f (rev chunks))))"
        by (simp add: sorted_wrt_rev)
      then have "sorted_wrt (\<lambda>a b. a \<ge> b) (map ?f reranked_chunks)"
        by (simp add: rs rev_map)
      moreover have "\<forall>x \<in> set (map (score_of w') reranked_chunks). x \<noteq> NaN"
        using nn set_rs by simp
      ultimately show ?thesis
        by (simp add: non_increasing_numbers comp_def)
    qed
    have stable: "filter (\<lambda>r. score_of w' r = s) reranked_chunks =
                  filter (\<lambda>r. score_of w' r = s) chunks" for s
    proof (cases s)
      case NaN
      then show ?thesis using nn set_rs by (simp add: filter_empty_conv)
    next
      case (Num a)
      have same: "(score_of w' r = s) = (?f r = a)" if "r \<in> set chunks" for r
      proof -
        from that nn have "score_of w' r \<noteq> NaN" by simp
        then show ?thesis using Num by (cases "score_of w' r") simp_all
      qed
      have "filter (\<lambda>r. ?f r = a) (sort_key ?f (rev chunks)) =
            filter (\<lambda>r. ?f r = a) (rev chunks)"
        by (rule sort_key_stable)
      then have "filter (\<lambda>r. ?f r = a) reranked_chunks = filter (\<lambda>r. ?f r = a) chunks"
        by (simp add: rs rev_filter [symmetric])
      moreover have "filter (\<lambda>r. score_of w' r = s) reranked_chunks =
          filter (\<lambda>r. ?f r = a) reranked_chunks"
        by (rule filter_cong [OF refl]) (simp add: same set_rs)
      moreover have "filter (\<lambda>r. score_of w' r = s) chunks = filter (\<lambda>r. ?f r = a) chunks"
        by (rule filter_cong [OF refl]) (simp add: same)
      ultimately show ?thesis by simp
    qed
    have given: "map (score_of w') chunks = take (length chunks) scores" if "distinct chunks"
      unfolding w' using write_scores_distinct [of 0 chunks scores ?w1] len that by simp
    show ?thesis using srt stable written given by blast
  qed
  show ?thesis using perm rest by blast
qed

text \<open>
  C5, amended, on the sample store, with a tie between the chunks 1 and 3.
\<close>

theorem rerank_results_sorted_permutation_witness:
  "rerank_results ''intro and results'' [1, 3, 0, 2] length_scorer sample_world =
     ([0, 1, 3, 2], snd (rerank_results ''intro and results'' [1, 3, 0, 2] length_scorer sample_world))
   \<and> map (score_of (snd (rerank_results ''intro and results'' [1, 3, 0, 2] length_scorer sample_world)))
       [0, 1, 3, 2] = [Num 29, Num 15, Num 15, Num 12]
   \<and> mset [0, 1, 3, 2] = mset [1, 3, 0, 2::nat]
   \<and> non_increasing
       (map (score_of (snd (rerank_results ''intro and results'' [1, 3, 0, 2] length_scorer sample_world)))
          [0, 1, 3, 2])"
proof -
  let ?w' = "snd (rerank_results ''intro and results'' [1, 3, 0, 2] length_scorer sample_world)"
  have run: "rerank_results ''intro and results'' [1, 3, 0, 2] length_scorer sample_world =
      ([0, 1, 3, 2], ?w')"
    by (rule prod_eqI) (code_simp, simp)
  have sc: "map (score_of ?w') [0, 1, 3, 2] = [Num 29, Num 15, Num 15, Num 12]"
    by code_simp
  have wf: "\<forall>r \<in> set [1, 3, 0, 2]. c_text (heap sample_world r) \<noteq> None"
    by (simp add: sample_world_def new_chunk_def)
  have given: "length_scorer (map (\<lambda>r. (''intro and results'', the (c_text (heap sample_world r))))
      [1, 3, 0, 2]) = Inr [Num 15, Num 15, Num 29, Num 12]"
    by code_simp
  have len: "length [1, 3, 0, 2::nat] \<le> length [Num 15, Num 15, Num 29, Num 12]"
    by simp
  have numbers: "\<forall>j < length [1, 3, 0, 2::nat]. [Num 15, Num 15, Num 29, Num 12] ! j \<noteq> NaN"
    by (simp add: nth_Cons split: nat.splits)
  from rerank_results_sorted_permutation [OF run, of "[Num 15, Num 15, Num 29, Num 12]"]
    wf given len numbers
  have "mset [0, 1, 3, 2] = mset [1, 3, 0, 2::nat]"
    and "non_increasing (map (score_of ?w') [0, 1, 3, 2])"
    by blast+
  with run sc show ?thesis by blast
qed

text \<open>
  C5 as stated fails for a scorer that returns NaN: on the scores \<open>1.0, nan, 2.0\<close> no
  comparison moves an element, the candidates come back in the order they were passed,
  and the score 1.0 stands before the greater score 2.0.
\<close>

theorem rerank_results_nan_counterexample:
  "nan_scorer (map (\<lambda>r. (''intro and results'', the (c_text (heap sample_world r)))) [0, 1, 2]) =
     Inr [Num 1, NaN, Num 2]
   \<and> fst (rerank_results ''intro and results'' [0, 1, 2] nan_scorer sample_world) = [0, 1, 2]
   \<and> map (score_of (snd (rerank_results ''intro and results'' [0, 1, 2] nan_scorer sample_world)))
       (fst (rerank_results ''intro and results'' [0, 1, 2] nan_scorer sample_world)) =
       [Num 1, NaN, Num 2]
   \<and> flt (Num 1) (Num 2)
   \<and> \<not> non_increasing
       (map (score_of (snd (rerank_results ''intro and results'' [0, 1, 2] nan_scorer sample_world)))
          (fst (rerank_results ''intro and results'' [0, 1, 2] nan_scorer sample_world)))"
  by code_simp

text \<open>
  C6. On the empty list \<open>rerank_results\<close> returns the empty list and leaves the store and
  the trace as they were, so the scorer was not called. When the scorer raises on the
  pairs of the candidates, the candidates are returned in the order they were passed, and
  no chunk is written to.
\<close>

theorem rerank_results_empty_and_scorer_failure:
  "rerank_results query [] reranker w = ([], w)
   \<and> ((\<forall>r \<in> set chunks. c_text (heap w r) \<noteq> None) \<and>
      reranker (map (\<lambda>r. (query, the (c_text (heap w r)))) chunks) = Inl e \<longrightarrow>
        fst (rerank_results query chunks reranker w) = chunks \<and>
        heap (snd (rerank_results query chunks reranker w)) = heap w)"
proof -
  have empty: "rerank_results query [] reranker w = ([], w)"
    by (simp add: rerank_results_def)
  have failure: "fst (rerank_results query chunks reranker w) = chunks \<and>
        heap (snd (rerank_results query chunks reranker w)) = heap w"
    if wf: "\<forall>r \<in> set chunks. c_text (heap w r) \<noteq> None"
      and raised: "reranker (map (\<lambda>r. (query, the (c_text (heap w r)))) chunks) = Inl e"
  proof -
    have texts: "mapE (\<lambda>r. lookup ''text'' (c_text (heap w r))) chunks =
        Inr (map (\<lambda>r. the (c_text (heap w r))) chunks)"
      using wf by (rule mapE_lookup_texts)
    have raised': "reranker (map (Pair query \<circ> (\<lambda>r. the (c_text (heap w r)))) chunks) = Inl e"
      using raised by (simp add: comp_def)
    show ?thesis
      unfolding rerank_results_def
      by (simp add: texts raised' Let_def rerank_except_def)
  qed
  show ?thesis using empty failure by blast
qed

text \<open>
  C6 on the sample store, with the scorer that raises.
\<close>

theorem rerank_results_empty_and_scorer_failure_witness:
  "rerank_results ''intro and results'' [] failing_scorer sample_world = ([], sample_world)
   \<and> fst (rerank_results ''intro and results'' [1, 3, 0, 2] failing_scorer sample_world) = [1, 3, 0, 2]
   \<and> heap (snd (rerank_results ''intro and results'' [1, 3, 0, 2] failing_scorer sample_world)) =
       heap sample_world"
proof -
  have wf: "\<forall>r \<in> set [1, 3, 0, 2]. c_text (heap sample_world r) \<noteq> None"
    by (simp add: sample_world_def new_chunk_def)
  have raised: "failing_scorer (map (\<lambda>r. (''intro and results'', the (c_text (heap sample_world r))))
      [1, 3, 0, 2]) = Inl (ExternalError ''model not loaded'')"
    by (simp add: failing_scorer_def)
  from rerank_results_empty_and_scorer_failure
         [of "''intro and results''" failing_scorer sample_world "[1, 3, 0, 2]"
             "ExternalError ''model not loaded''"]
       wf raised
  show ?thesis by blast
qed

section \<open>Verification: hybrid retrieval\<close>

text \<open>
  C1. When \<open>structural_search\<close> returns at least one chunk, \<open>advanced_retrieval\<close> returns
  the first 10 of the list \<open>rerank_results\<close> makes of those chunks; its trace gains no call
  of the embedding model and no search of the index; and the outcome is the same for any
  other index and embedding model.
\<close>

theorem advanced_retrieval_structural_hit:
  assumes "structural_search query chunks w = (Inr structural_results, w1)"
    and "structural_results \<noteq> []"
  shows "advanced_retrieval query index chunks embeddings_model reranker w =
           (Inr (take 10 (fst (rerank_results query structural_results reranker w1))),
            snd (rerank_results query structural_results reranker w1))
       \<and> filter uses_vector_index
           (trace (snd (advanced_retrieval query index chunks embeddings_model reranker w))) =
         filter uses_vector_index (trace w)
       \<and> advanced_retrieval query index' chunks embeddings_model' reranker w =
         advanced_retrieval query index chunks embeddings_model reranker w"
proof -
  have run: "advanced_retrieval query i chunks m reranker w =
           (Inr (take 10 (fst (rerank_results query structural_results reranker w1))),
            snd (rerank_results query structural_results reranker w1))" for i m
    unfolding advanced_retrieval_def using assms
    by (simp add: STRUCTURAL_SEARCH_TOP_K_def split: prod.splits)
  have "filter uses_vector_index (trace w1) = filter uses_vector_index (trace w)"
    using structural_search_trace [of query chunks w] assms(1) by simp
  then have quiet: "filter uses_vector_index
           (trace (snd (advanced_retrieval query index chunks embeddings_model reranker w))) =
         filter uses_vector_index (trace w)"
    using run rerank_results_trace [of query structural_results reranker w1] by simp
  show ?thesis
    using run [of index embeddings_model] run [of index' embeddings_model'] quiet
    by (simp only: simp_thms)
qed

text \<open>
  C1 on the sample store.
\<close>

theorem advanced_retrieval_structural_hit_witness:
  "structural_search ''intro and results'' [0, 1, 2, 3] sample_world =
     (Inr [1, 3, 0, 2], snd (structural_search ''intro and results'' [0, 1, 2, 3] sample_world))
   \<and> fst (advanced_retrieval ''intro and results'' two_vector_index [0, 1, 2, 3] unit_embedder
            length_scorer sample_world) = Inr [0, 1, 3, 2]
   \<and> filter uses_vector_index
       (trace (snd (advanced_retrieval ''intro and results'' two_vector_index [0, 1, 2, 3]
                      unit_embedder length_scorer sample_world))) = []"
proof -
  let ?w1 = "snd (structural_search ''intro and results'' [0, 1, 2, 3] sample_world)"
  have hit: "structural_search ''intro and results'' [0, 1, 2, 3] sample_world =
      (Inr [1, 3, 0, 2], ?w1)"
    by (rule prod_eqI) (code_simp, simp)
  have ne: "[1, 3, 0, 2::nat] \<noteq> []" by simp
  have rr: "take 10 (fst (rerank_results ''intro and results'' [1, 3, 0, 2] length_scorer ?w1)) =
      [0, 1, 3, 2]"
    by code_simp
  have tr: "filter uses_vector_index (trace sample_world) = []"
    by (simp add: sample_world_def)
  note t = advanced_retrieval_structural_hit
    [OF hit ne, of two_vector_index unit_embedder length_scorer]
  have a: "fst (advanced_retrieval ''intro and results'' two_vector_index [0, 1, 2, 3] unit_embedder
            length_scorer sample_world) = Inr [0, 1, 3, 2]"
    unfolding t [THEN conjunct1] fst_conv rr by (rule refl)
  have b: "filter uses_vector_index
       (trace (snd (advanced_retrieval ''intro and results'' two_vector_index [0, 1, 2, 3]
                      unit_embedder length_scorer sample_world))) = []"
    by (rule trans [OF t [THEN conjunct2, THEN conjunct1] tr])
  show ?thesis using hit a b by blast
qed

text \<open>
  The fallback path writes to fresh copies only: \<open>semantic_search\<close> leaves every chunk
  object that existed before the call as it was.
\<close>

lemma gather_frame:
  "a < next_free w \<Longrightarrow>
   heap (snd (gather chunks distances indices i retrieved w)) a = heap w a \<and>
   next_free w \<le> next_free (snd (gather chunks distances indices i retrieved w))"
proof (induction chunks distances indices i retrieved w rule: gather.induct)
  case (1 chunks distances i retrieved w)
  then show ?case by simp
next
  case (2 chunks distances idx indices i retrieved w)
  show ?case
  proof (cases "idx < int (length chunks)")
    case False
    with 2 show ?thesis by simp
  next
    case True
    show ?thesis
    proof (cases "py_index chunks idx")
      case (Inl e)
      with True show ?thesis by simp
    next
      case (Inr r)
      let ?w1 = "w\<lparr>heap := (heap w)(next_free w := heap w r), next_free := Suc (next_free w)\<rparr>"
      have c: "copy_chunk r w = (next_free w, ?w1)" by (simp add: copy_chunk_def)
      show ?thesis
      proof (cases "np_index distances i")
        case (Inl e)
        with True Inr c "2.prems" show ?thesis by simp
      next
        case d: (Inr d)
        let ?w2 = "set_similarity (next_free w) d ?w1"
        have a2: "a < next_free ?w2" using "2.prems" by (simp add: set_similarity_def)
        have ih: "heap (snd (gather chunks distances indices (Suc i) (retrieved @ [next_free w]) ?w2)) a
                    = heap ?w2 a \<and>
                  next_free ?w2 \<le>
                    next_free (snd (gather chunks distances indices (Suc i) (retrieved @ [next_free w]) ?w2))"
          using "2.IH"(1) [OF True Inr c [symmetric] d a2] .
        have "heap ?w2 a = heap w a" using "2.prems" by (simp add: set_similarity_def)
        moreover have "next_free w \<le> next_free ?w2" by (simp add: set_similarity_def)
        ultimately show ?thesis
          using ih True Inr c d by simp
      qed
    qed
  qed
qed

lemma vector_lookup_frame:
  "a < next_free w \<Longrightarrow>
   heap (snd (vector_lookup on_error query index chunks embeddings_model top_k w)) a = heap w a"
proof -
  assume a: "a < next_free w"
  have g: "heap w3 a = heap w0 a"
    if "gather chunks distances indices 0 [] w0 = (res, w3)" and "heap w0 = heap w"
      and "next_free w0 = next_free w" for distances indices w0 res w3
    using gather_frame [of a w0 chunks distances indices 0 "[]"] that a by simp
  show ?thesis
    unfolding vector_lookup_def
    by (auto simp: Let_def emit_def split: sum.splits prod.splits dest!: g)
qed

lemma semantic_search_frame:
  "a < next_free w \<Longrightarrow>
   heap (snd (semantic_search query index chunks embeddings_model top_k w)) a = heap w a"
  unfolding semantic_search_def by (rule vector_lookup_frame)

text \<open>
  C7 fails on the sample store. The query hits two headings, the matched chunks are the
  objects of the caller's list, and \<open>rerank_results\<close> writes \<open>rerank_score\<close> into them: the
  chunk at address 0 has no score before the call and the score 29 after it. The fallback
  path copies each chunk before it annotates it (\<open>semantic_search_frame\<close>); the structural
  path does not.
\<close>

theorem retrieve_writes_scores_into_shared_chunks:
  "rerank_score (heap sample_world 0) = None
   \<and> rerank_score (heap (snd (retrieve exact_arith unit_embedder length_scorer
        ''intro and results'' two_vector_index [0, 1, 2, 3] sample_world)) 0) = Some (Num 29)"
  by code_simp

text \<open>
  C4 fails for an index of two vectors asked for three neighbours. The third label is the
  padding \<open>-1\<close>; \<open>-1 < len(chunks)\<close> holds, so the guard lets it through and
  \<open>chunks[-1]\<close> is the last chunk: three results are returned for two chunks, the third a
  second copy of chunk 1 with the distance \<open>FLT_MAX\<close>.
\<close>

theorem semantic_search_keeps_padding_indices:
  "fst (semantic_search ''what about the weather'' two_vector_index [0, 1] unit_embedder 3
          sample_world) = [4, 5, 6]
   \<and> map (heap (snd (semantic_search ''what about the weather'' two_vector_index [0, 1]
          unit_embedder 3 sample_world))) [4, 5, 6] =
       [(heap sample_world 1)\<lparr>similarity_score := Some (1 / 4)\<rparr>,
        (heap sample_world 0)\<lparr>similarity_score := Some (1 / 2)\<rparr>,
        (heap sample_world 1)\<lparr>similarity_score := Some FLT_MAX\<rparr>]
   \<and> fst (search_vector_store ''what about the weather'' two_vector_index [0, 1] unit_embedder 3
          sample_world) = [4, 5, 6]
   \<and> map (heap (snd (search_vector_store ''what about the weather'' two_vector_index [0, 1]
          unit_embedder 3 sample_world))) [4, 5, 6] =
       [(heap sample_world 1)\<lparr>similarity_score := Some (1 / 4)\<rparr>,
        (heap sample_world 0)\<lparr>similarity_score := Some (1 / 2)\<rparr>,
        (heap sample_world 1)\<lparr>similarity_score := Some FLT_MAX\<rparr>]"
  by code_simp

section \<open>Verification: the retriever's result record\<close>

lemma get_search_statistics_Nil: "get_search_statistics fl w [] = Inr no_statistics"
  by (simp add: get_search_statistics_def)

lemma mapE_Inl:
  "mapE f xs = Inl e \<Longrightarrow> \<exists>x \<in> set xs. f x = Inl e"
  by (induction xs) (auto split: sum.splits)

lemma mapE_Inr:
  "mapE f xs = Inr ys \<Longrightarrow> map f xs = map Inr ys"
  by (induction xs arbitrary: ys) (auto split: sum.splits)

lemma lookup_Inl: "lookup k v = Inl e \<Longrightarrow> e = KeyError k"
  by (auto simp: lookup_def split: option.splits)

lemma lookup_Inr: "lookup k v = Inr x \<Longrightarrow> v = Some x"
  by (auto simp: lookup_def split: option.splits)

lemma mapE_lookup_Inr:
  "mapE (\<lambda>x. lookup k (f x)) xs = Inr ys \<Longrightarrow>
   (\<forall>x \<in> set xs. f x \<noteq> None) \<and> ys = map (\<lambda>x. the (f x)) xs"
proof (induction xs arbitrary: ys)
  case Nil
  then show ?case by simp
next
  case (Cons x xs)
  then show ?case
    by (auto split: sum.splits dest!: lookup_Inr)
qed

lemma context_part_Inl: "context_part c = Inl e \<Longrightarrow> \<exists>k. e = KeyError k"
  by (auto simp: context_part_def split: sum.splits dest: lookup_Inl)

lemma context_part_Inr:
  "context_part c = Inr s \<Longrightarrow>
   c_page_number c \<noteq> None \<and> c_heading c \<noteq> None \<and> c_text c \<noteq> None \<and>
   s = ''--- Context from Page '' @ show_nat (the (c_page_number c)) @ '', Section: ''
       @ the (c_heading c) @ '' ---'' @ [CHR 0x0A] @ the (c_text c)"
  by (auto simp: context_part_def split: sum.splits dest!: lookup_Inr)

lemma mapE_context_part_Inr:
  "mapE (\<lambda>r. context_part (heap w r)) rs = Inr parts \<Longrightarrow>
   (\<forall>r \<in> set rs. c_page_number (heap w r) \<noteq> None \<and> c_heading (heap w r) \<noteq> None \<and>
                   c_text (heap w r) \<noteq> None) \<and>
   parts = map (\<lambda>r. ''--- Context from Page '' @ show_nat (the (c_page_number (heap w r)))
                     @ '', Section: '' @ the (c_heading (heap w r)) @ '' ---'' @ [CHR 0x0A]
                     @ the (c_text (heap w r))) rs"
proof (induction rs arbitrary: parts)
  case Nil
  then show ?case by simp
next
  case (Cons r rs)
  from Cons.prems obtain s rest where s: "context_part (heap w r) = Inr s"
    and rest: "mapE (\<lambda>r. context_part (heap w r)) rs = Inr rest" and parts: "parts = s # rest"
    by (auto split: sum.splits)
  from context_part_Inr [OF s] Cons.IH [OF rest] parts show ?case by simp
qed

lemma mapE_context_part_Some:
  "\<forall>r \<in> set rs. c_page_number (heap w r) \<noteq> None \<and> c_heading (heap w r) \<noteq> None \<and>
                   c_text (heap w r) \<noteq> None \<Longrightarrow>
   \<exists>parts. mapE (\<lambda>r. context_part (heap w r)) rs = Inr parts"
  by (induction rs) (auto simp: context_part_def lookup_def)

lemma format_context_Inl:
  "format_context_for_llm w rs = Inl e \<Longrightarrow> \<exists>k. e = KeyError k"
  by (auto simp: format_context_for_llm_def split: if_splits sum.splits
      dest!: mapE_Inl context_part_Inl)

lemma statistics_Inl:
  "get_search_statistics fl w rs = Inl e \<Longrightarrow> \<exists>k. e = KeyError k"
  by (auto simp: get_search_statistics_def Let_def split: if_splits sum.splits
      dest!: mapE_Inl lookup_Inl)

lemma structural_search_Inl:
  "structural_search query chunks w = (Inl e, w') \<Longrightarrow> e = KeyError ''heading''"
  by (auto simp: structural_search_def Let_def split: sum.splits prod.splits
      dest!: mapE_Inl lookup_Inl)

lemma advanced_retrieval_Inl:
  "advanced_retrieval query index chunks embeddings_model reranker w = (Inl e, w') \<Longrightarrow>
   e = KeyError ''heading''"
  by (auto simp: advanced_retrieval_def split: sum.splits prod.splits if_splits
      dest!: structural_search_Inl)

lemma retrieve_steps_Inl:
  "retrieve_steps fl query index chunks embeddings_model reranker w = (Inl e, w') \<Longrightarrow>
   \<exists>k. e = KeyError k"
  by (auto simp: retrieve_steps_def split: sum.splits prod.splits
      dest!: advanced_retrieval_Inl format_context_Inl statistics_Inl)

text \<open>\<open>min\<close> and \<open>max\<close> of floats that are numbers.\<close>

lemma fold_min_numbers:
  "\<forall>x \<in> set xs. x \<noteq> NaN \<Longrightarrow>
   fold (\<lambda>item m. if flt item m then item else m) xs (Num a) = Num (fold min (map num_of xs) a)"
proof (induction xs arbitrary: a)
  case Nil
  then show ?case by simp
next
  case (Cons x xs)
  then obtain b where x: "x = Num b" by (cases x) auto
  have "(if b < a then b else a) = min b a" by (simp add: min_def)
  with Cons x show ?case by simp
qed

lemma fold_max_numbers:
  "\<forall>x \<in> set xs. x \<noteq> NaN \<Longrightarrow>
   fold (\<lambda>item m. if flt m item then item else m) xs (Num a) = Num (fold max (map num_of xs) a)"
proof (induction xs arbitrary: a)
  case Nil
  then show ?case by simp
next
  case (Cons x xs)
  then obtain b where x: "x = Num b" by (cases x) auto
  have "(if a < b then b else a) = max b a" by (simp add: max_def)
  with Cons x show ?case by simp
qed

lemma py_min_numbers:
  assumes "xs \<noteq> []" and "\<forall>x \<in> set xs. x \<noteq> NaN"
  shows "py_min xs = Num (Min (num_of ` set xs))"
proof -
  from assms obtain a ys where xs: "xs = Num a # ys"
    by (cases xs; cases "hd xs") auto
  have "py_min xs = Num (fold min (map num_of ys) a)"
    using assms(2) by (simp add: py_min_def xs fold_min_numbers)
  also have "fold min (map num_of ys) a = Min (set (a # map num_of ys))"
    by (simp only: Min.set_eq_fold)
  finally show ?thesis by (simp add: xs)
qed

lemma py_max_numbers:
  assumes "xs \<noteq> []" and "\<forall>x \<in> set xs. x \<noteq> NaN"
  shows "py_max xs = Num (Max (num_of ` set xs))"
proof -
  from assms obtain a ys where xs: "xs = Num a # ys"
    by (cases xs; cases "hd xs") auto
  have "py_max xs = Num (fold max (map num_of ys) a)"
    using assms(2) by (simp add: py_max_def xs fold_max_numbers)
  also have "fold max (map num_of ys) a = Max (set (a # map num_of ys))"
    by (simp only: Max.set_eq_fold)
  finally show ?thesis by (simp add: xs)
qed

lemma format_context_Inr:
  assumes a: "format_context_for_llm w rs = Inr ctx"
  shows "(\<forall>r \<in> set rs. c_page_number (heap w r) \<noteq> None \<and> c_heading (heap w r) \<noteq> None \<and>
                   c_text (heap w r) \<noteq> None) \<and>
   ctx = (if rs = [] then ''No relevant context found.''
          else join [CHR 0x0A, CHR 0x0A]
                 (map (\<lambda>r. ''--- Context from Page '' @ show_nat (the (c_page_number (heap w r)))
                            @ '', Section: '' @ the (c_heading (heap w r)) @ '' ---''
                            @ [CHR 0x0A] @ the (c_text (heap w r))) rs))"
proof (cases "rs = []")
  case True
  then show ?thesis using a by (simp add: format_context_for_llm_def)
next
  case False
  with a obtain parts where p: "mapE (\<lambda>r. context_part (heap w r)) rs = Inr parts"
    and ctx: "ctx = join [CHR 0x0A, CHR 0x0A] parts"
    by (auto simp: format_context_for_llm_def split: sum.splits)
  from mapE_context_part_Inr [OF p] ctx False show ?thesis by simp
qed

lemma statistics_Inr:
  assumes "get_search_statistics fl w rs = Inr stats" and "rs \<noteq> []"
  shows "total_chunks stats = length rs"
    and "unique_pages stats = card ((\<lambda>r. the (c_page_number (heap w r))) ` set rs)"
    and "unique_sections stats = card ((\<lambda>r. the (c_heading (heap w r))) ` set rs)"
    and "avg_rerank_score stats = float_div fl (float_sum fl (map (score_of w) rs)) (length rs)"
    and "score_range stats = (py_min (map (score_of w) rs), py_max (map (score_of w) rs))"
proof -
  from assms obtain pages sections where
    p: "mapE (\<lambda>r. lookup ''page_number'' (c_page_number (heap w r))) rs = Inr pages"
    and s: "mapE (\<lambda>r. lookup ''heading'' (c_heading (heap w r))) rs = Inr sections"
    by (auto simp: get_search_statistics_def Let_def split: sum.splits)
  have pages: "pages = map (\<lambda>r. the (c_page_number (heap w r))) rs"
    using mapE_lookup_Inr [OF p] by simp
  have sections: "sections = map (\<lambda>r. the (c_heading (heap w r))) rs"
    using mapE_lookup_Inr [OF s] by simp
  have stats: "stats = \<lparr>total_chunks = length rs, unique_pages = length (remdups pages),
      unique_sections = length (remdups sections),
      avg_rerank_score = float_div fl (float_sum fl (map (score_of w) rs)) (length rs),
      score_range = (py_min (map (score_of w) rs), py_max (map (score_of w) rs))\<rparr>"
    using assms by (simp add: get_search_statistics_def Let_def p s)
  show "total_chunks stats = length rs" by (simp add: stats)
  show "unique_pages stats = card ((\<lambda>r. the (c_page_number (heap w r))) ` set rs)"
    by (simp add: stats pages length_remdups_card_conv)
  show "unique_sections stats = card ((\<lambda>r. the (c_heading (heap w r))) ` set rs)"
    by (simp add: stats sections length_remdups_card_conv)
  show "avg_rerank_score stats = float_div fl (float_sum fl (map (score_of w) rs)) (length rs)"
    by (simp add: stats)
  show "score_range stats = (py_min (map (score_of w) rs), py_max (map (score_of w) rs))"
    by (simp add: stats)
qed

lemma retrieve_steps_returns:
  assumes "advanced_retrieval query index chunks embeddings_model reranker w = (Inr rs, w')"
    and "\<forall>r \<in> set rs. c_page_number (heap w' r) \<noteq> None \<and> c_heading (heap w' r) \<noteq> None \<and>
                        c_text (heap w' r) \<noteq> None"
  shows "\<exists>ctx stats. retrieve_steps fl query index chunks embeddings_model reranker w =
           (Inr (rs, ctx, stats), w')"
proof -
  have "\<exists>ctx. format_context_for_llm w' rs = Inr ctx"
    using mapE_context_part_Some [OF assms(2)]
    by (auto simp: format_context_for_llm_def)
  moreover have "\<exists>stats. get_search_statistics fl w' rs = Inr stats"
  proof -
    have "mapE (\<lambda>r. lookup ''page_number'' (c_page_number (heap w' r))) rs =
        Inr (map (\<lambda>r. the (c_page_number (heap w' r))) rs)"
      using assms(2) by (intro mapE_lookup_Some) simp
    moreover have "mapE (\<lambda>r. lookup ''heading'' (c_heading (heap w' r))) rs =
        Inr (map (\<lambda>r. the (c_heading (heap w' r))) rs)"
      using assms(2) by (intro mapE_lookup_Some) simp
    ultimately show ?thesis
      by (simp add: get_search_statistics_def Let_def)
  qed
  ultimately show ?thesis
    using assms(1) by (auto simp: retrieve_steps_def)
qed

text \<open>
  C10. \<open>retrieve\<close> returns a record in every case. When a step inside its \<open>try\<close> raises, the
  record has \<open>success = False\<close>, the message of the exception as \<open>error\<close>, no chunks,
  the context \<open>Error occurred during retrieval.\<close> and the statistics of no chunks, all zero;
  the message is not empty, since the only exceptions that reach the handler are the
  \<open>KeyError\<close>s of chunk dictionaries that lack a key. Otherwise the record has
  \<open>success = True\<close> and the chunks \<open>advanced_retrieval\<close> returned; its context is
  \<open>No relevant context found.\<close> for no chunks, and else the parts
  \<open>--- Context from Page p, Section: h ---\<close>, a newline and the text, one for each chunk
  in order, joined by blank lines; its statistics are all zero for no chunks, and else the
  number of the chunks, the number of their distinct pages, the number of their distinct
  headings, the float quotient of the float sum of their rerank scores by their number,
  and the pair of \<open>min\<close> and \<open>max\<close> of these scores, which are the least and the greatest
  score when none is NaN. Whenever \<open>advanced_retrieval\<close> returns chunks that carry page
  number, heading and text, the record is of this second kind.
\<close>

theorem retrieve_always_returns_a_record:
  "(\<forall>e w'. retrieve_steps fl query index chunks embeddings_model reranker w = (Inl e, w') \<longrightarrow>
      retrieve fl embeddings_model reranker query index chunks w =
        (\<lparr>r_success = False, r_error = Some (str_exn e), r_chunks = [],
          r_context = ''Error occurred during retrieval.'',
          r_statistics = \<lparr>total_chunks = 0, unique_pages = 0, unique_sections = 0,
                           avg_rerank_score = Num 0, score_range = (Num 0, Num 0)\<rparr>,
          r_query = query\<rparr>, w')
      \<and> str_exn e \<noteq> [])
   \<and> (\<forall>rs ctx stats w'.
        retrieve_steps fl query index chunks embeddings_model reranker w =
          (Inr (rs, ctx, stats), w') \<longrightarrow>
        retrieve fl embeddings_model reranker query index chunks w =
          (\<lparr>r_success = True, r_error = None, r_chunks = rs, r_context = ctx,
            r_statistics = stats, r_query = query\<rparr>, w')
        \<and> advanced_retrieval query index chunks embeddings_model reranker w = (Inr rs, w')
        \<and> ctx = (if rs = [] then ''No relevant context found.''
                 else join [CHR 0x0A, CHR 0x0A]
                        (map (\<lambda>r. ''--- Context from Page ''
                                   @ show_nat (the (c_page_number (heap w' r)))
                                   @ '', Section: '' @ the (c_heading (heap w' r)) @ '' ---''
                                   @ [CHR 0x0A] @ the (c_text (heap w' r))) rs))
        \<and> (rs = [] \<longrightarrow>
             stats = \<lparr>total_chunks = 0, unique_pages = 0, unique_sections = 0,
                      avg_rerank_score = Num 0, score_range = (Num 0, Num 0)\<rparr>)
        \<and> (rs \<noteq> [] \<longrightarrow>
             total_chunks stats = length rs
           \<and> unique_pages stats = card ((\<lambda>r. the (c_page_number (heap w' r))) ` set rs)
           \<and> unique_sections stats = card ((\<lambda>r. the (c_heading (heap w' r))) ` set rs)
           \<and> avg_rerank_score stats =
               float_div fl (float_sum fl (map (score_of w') rs)) (length rs)
           \<and> score_range stats = (py_min (map (score_of w') rs), py_max (map (score_of w') rs))
           \<and> ((\<forall>r \<in> set rs. score_of w' r \<noteq> NaN) \<longrightarrow>
                score_range stats = (Num (Min ((\<lambda>r. num_of (score_of w' r)) ` set rs)),
                                     Num (Max ((\<lambda>r. num_of (score_of w' r)) ` set rs))))))
   \<and> (\<forall>rs w'.
        advanced_retrieval query index chunks embeddings_model reranker w = (Inr rs, w') \<and>
        (\<forall>r \<in> set rs. c_page_number (heap w' r) \<noteq> None \<and> c_heading (heap w' r) \<noteq> None \<and>
                        c_text (heap w' r) \<noteq> None) \<longrightarrow>
        r_success (fst (retrieve fl embeddings_model reranker query index chunks w)) \<and>
        r_chunks (fst (retrieve fl embeddings_model reranker query index chunks w)) = rs)"
proof -
  have failure: "retrieve fl embeddings_model reranker query index chunks w =
        (\<lparr>r_success = False, r_error = Some (str_exn e), r_chunks = [],
          r_context = ''Error occurred during retrieval.'',
          r_statistics = \<lparr>total_chunks = 0, unique_pages = 0, unique_sections = 0,
                           avg_rerank_score = Num 0, score_range = (Num 0, Num 0)\<rparr>,
          r_query = query\<rparr>, w')
      \<and> str_exn e \<noteq> []"
    if "retrieve_steps fl query index chunks embeddings_model reranker w = (Inl e, w')" for e w'
  proof -
    from that obtain k where "e = KeyError k"
      by (auto dest: retrieve_steps_Inl)
    then have "str_exn e \<noteq> []" by simp
    then show ?thesis
      using that by (simp add: retrieve_def no_statistics_def)
  qed
  have success: "retrieve fl embeddings_model reranker query index chunks w =
          (\<lparr>r_success = True, r_error = None, r_chunks = rs, r_context = ctx,
            r_statistics = stats, r_query = query\<rparr>, w')
        \<and> advanced_retrieval query index chunks embeddings_model reranker w = (Inr rs, w')
        \<and> ctx = (if rs = [] then ''No relevant context found.''
                 else join [CHR 0x0A, CHR 0x0A]
                        (map (\<lambda>r. ''--- Context from Page ''
                                   @ show_nat (the (c_page_number (heap w' r)))
                                   @ '', Section: '' @ the (c_heading (heap w' r)) @ '' ---''
                                   @ [CHR 0x0A] @ the (c_text (heap w' r))) rs))
        \<and> (rs = [] \<longrightarrow>
             stats = \<lparr>total_chunks = 0, unique_pages = 0, unique_sections = 0,
                      avg_rerank_score = Num 0, score_range = (Num 0, Num 0)\<rparr>)
        \<and> (rs \<noteq> [] \<longrightarrow>
             total_chunks stats = length rs
           \<and> unique_pages stats = card ((\<lambda>r. the (c_page_number (heap w' r))) ` set rs)
           \<and> unique_sections stats = card ((\<lambda>r. the (c_heading (heap w' r))) ` set rs)
           \<and> avg_rerank_score stats =
               float_div fl (float_sum fl (map (score_of w') rs)) (length rs)
           \<and> score_range stats = (py_min (map (score_of w') rs), py_max (map (score_of w') rs))
           \<and> ((\<forall>r \<in> set rs. score_of w' r \<noteq> NaN) \<longrightarrow>
                score_range stats = (Num (Min ((\<lambda>r. num_of (score_of w' r)) ` set rs)),
                                     Num (Max ((\<lambda>r. num_of (score_of w' r)) ` set rs)))))"
    if steps: "retrieve_steps fl query index chunks embeddings_model reranker w =
          (Inr (rs, ctx, stats), w')" for rs ctx stats w'
  proof -
    have r: "retrieve fl embeddings_model reranker query index chunks w =
          (\<lparr>r_success = True, r_error = None, r_chunks = rs, r_context = ctx,
            r_statistics = stats, r_query = query\<rparr>, w')"
      using steps by (simp add: retrieve_def)
    from steps have adv: "advanced_retrieval query index chunks embeddings_model reranker w =
            (Inr rs, w')"
      and fmt: "format_context_for_llm w' rs = Inr ctx"
      and st: "get_search_statistics fl w' rs = Inr stats"
      by (auto simp: retrieve_steps_def split: sum.splits prod.splits)
    note c = format_context_Inr [OF fmt, THEN conjunct2]
    have empty: "stats = \<lparr>total_chunks = 0, unique_pages = 0, unique_sections = 0,
                      avg_rerank_score = Num 0, score_range = (Num 0, Num 0)\<rparr>" if "rs = []"
      using st that by (simp add: get_search_statistics_Nil no_statistics_def)
    have full: "total_chunks stats = length rs
           \<and> unique_pages stats = card ((\<lambda>r. the (c_page_number (heap w' r))) ` set rs)
           \<and> unique_sections stats = card ((\<lambda>r. the (c_heading (heap w' r))) ` set rs)
           \<and> avg_rerank_score stats =
               float_div fl (float_sum fl (map (score_of w') rs)) (length rs)
           \<and> score_range stats = (py_min (map (score_of w') rs), py_max (map (score_of w') rs))
           \<and> ((\<forall>r \<in> set rs. score_of w' r \<noteq> NaN) \<longrightarrow>
                score_range stats = (Num (Min ((\<lambda>r. num_of (score_of w' r)) ` set rs)),
                                     Num (Max ((\<lambda>r. num_of (score_of w' r)) ` set rs))))"
      if ne: "rs \<noteq> []"
    proof -
      note s = statistics_Inr [OF st ne]
      have range: "score_range stats = (Num (Min ((\<lambda>r. num_of (score_of w' r)) ` set rs)),
                                     Num (Max ((\<lambda>r. num_of (score_of w' r)) ` set rs)))"
        if nn: "\<forall>r \<in> set rs. score_of w' r \<noteq> NaN"
      proof -
        have ne': "map (score_of w') rs \<noteq> []" using ne by simp
        have nn': "\<forall>x \<in> set (map (score_of w') rs). x \<noteq> NaN" using nn by simp
        have img: "num_of ` set (map (score_of w') rs) = (\<lambda>r. num_of (score_of w' r)) ` set rs"
          by (simp add: image_image)
        show ?thesis
          unfolding s(5) py_min_numbers [OF ne' nn'] py_max_numbers [OF ne' nn'] img ..
      qed
      show ?thesis using s range by blast
    qed
    show ?thesis using r adv c empty full by blast
  qed
  have returns: "r_success (fst (retrieve fl embeddings_model reranker query index chunks w)) \<and>
        r_chunks (fst (retrieve fl embeddings_model reranker query index chunks w)) = rs"
    if "advanced_retrieval query index chunks embeddings_model reranker w = (Inr rs, w')"
      and "\<forall>r \<in> set rs. c_page_number (heap w' r) \<noteq> None \<and> c_heading (heap w' r) \<noteq> None \<and>
                        c_text (heap w' r) \<noteq> None" for rs w'
  proof -
    from retrieve_steps_returns [OF that, of fl] obtain ctx stats where
      "retrieve_steps fl query index chunks embeddings_model reranker w = (Inr (rs, ctx, stats), w')"
      by blast
    then show ?thesis by (simp add: retrieve_def)
  qed
  show ?thesis using failure success returns by blast
qed

text \<open>
  C10 at a chunk list with a dictionary that has no heading, and at the four chunks of the
  sample store, which the query hits by both headings.
\<close>

theorem retrieve_always_returns_a_record_witness:
  "fst (retrieve exact_arith unit_embedder length_scorer ''intro and results'' two_vector_index
          [0, 1, 7] sample_world) =
     \<lparr>r_success = False, r_error = Some [CHR 0x27, CHR ''h'', CHR ''e'', CHR ''a'', CHR ''d'',
          CHR ''i'', CHR ''n'', CHR ''g'', CHR 0x27], r_chunks = [],
       r_context = ''Error occurred during retrieval.'',
       r_statistics = \<lparr>total_chunks = 0, unique_pages = 0, unique_sections = 0,
                        avg_rerank_score = Num 0, score_range = (Num 0, Num 0)\<rparr>,
       r_query = ''intro and results''\<rparr>
   \<and> fst (retrieve exact_arith unit_embedder length_scorer ''intro and results'' two_vector_index
          [0, 1, 2, 3] sample_world) =
     \<lparr>r_success = True, r_error = None, r_chunks = [0, 1, 3, 2],
      r_context = ''--- Context from Page 2, Section: 2 Results ---\<newline>We measured the samples twice\<newline>\<newline>--- Context from Page 1, Section: Intro ---\<newline>Some background\<newline>\<newline>--- Context from Page 4, Section: Intro ---\<newline>Other materials\<newline>\<newline>--- Context from Page 3, Section: 2 Results ---\<newline>More numbers'',
      r_statistics = \<lparr>total_chunks = 4, unique_pages = 4, unique_sections = 2,
                       avg_rerank_score = Num (71 / 4), score_range = (Num 12, Num 29)\<rparr>,
      r_query = ''intro and results''\<rparr>"
proof -
  let ?ctx = "''--- Context from Page 2, Section: 2 Results ---\<newline>We measured the samples twice\<newline>\<newline>--- Context from Page 1, Section: Intro ---\<newline>Some background\<newline>\<newline>--- Context from Page 4, Section: Intro ---\<newline>Other materials\<newline>\<newline>--- Context from Page 3, Section: 2 Results ---\<newline>More numbers''"
  let ?stats = "\<lparr>total_chunks = 4, unique_pages = 4, unique_sections = 2,
                       avg_rerank_score = Num (71 / 4), score_range = (Num 12, Num 29)\<rparr>"
  have f: "retrieve_steps exact_arith ''intro and results'' two_vector_index [0, 1, 7] unit_embedder
       length_scorer sample_world =
      (Inl (KeyError ''heading''),
       snd (retrieve_steps exact_arith ''intro and results'' two_vector_index [0, 1, 7]
              unit_embedder length_scorer sample_world))"
    by (rule prod_eqI) (code_simp, simp)
  have s: "retrieve_steps exact_arith ''intro and results'' two_vector_index [0, 1, 2, 3]
       unit_embedder length_scorer sample_world =
      (Inr ([0, 1, 3, 2], ?ctx, ?stats),
       snd (retrieve_steps exact_arith ''intro and results'' two_vector_index [0, 1, 2, 3]
              unit_embedder length_scorer sample_world))"
    by (rule prod_eqI) (code_simp, simp)
  note t1 = retrieve_always_returns_a_record
    [of exact_arith "''intro and results''" two_vector_index "[0, 1, 7]" unit_embedder
        length_scorer sample_world, THEN conjunct1, rule_format, OF f, THEN conjunct1]
  note t2 = retrieve_always_returns_a_record
    [of exact_arith "''intro and results''" two_vector_index "[0, 1, 2, 3]" unit_embedder
        length_scorer sample_world, THEN conjunct2, THEN conjunct1, rule_format, OF s,
        THEN conjunct1]
  have a: "fst (retrieve exact_arith unit_embedder length_scorer ''intro and results''
      two_vector_index [0, 1, 7] sample_world) =
     \<lparr>r_success = False, r_error = Some (str_exn (KeyError ''heading'')), r_chunks = [],
       r_context = ''Error occurred during retrieval.'',
       r_statistics = \<lparr>total_chunks = 0, unique_pages = 0, unique_sections = 0,
                        avg_rerank_score = Num 0, score_range = (Num 0, Num 0)\<rparr>,
       r_query = ''intro and results''\<rparr>"
    unfolding t1 by (rule fst_conv)
  have b: "fst (retrieve exact_arith unit_embedder length_scorer ''intro and results''
      two_vector_index [0, 1, 2, 3] sample_world) =
     \<lparr>r_success = True, r_error = None, r_chunks = [0, 1, 3, 2], r_context = ?ctx,
      r_statistics = ?stats, r_query = ''intro and results''\<rparr>"
    unfolding t2 by (rule fst_conv)
  have e: "str_exn (KeyError ''heading'') = [CHR 0x27, CHR ''h'', CHR ''e'', CHR ''a'', CHR ''d'',
          CHR ''i'', CHR ''n'', CHR ''g'', CHR 0x27]"
    by simp
  show ?thesis using a b unfolding e by (rule conjI)
qed

end
